theory Spec2Isabelle
  imports Main "HOL-Library.Word"
begin

unbundle bit_operations_syntax

section \<open>Data model of HugeInt.h\<close>

text \<open>
  The class \<^verbatim>\<open>HugeInt\<close> has a single data member, \<^verbatim>\<open>uint32_t digits_[numDigits_]\<close>,
  with \<^verbatim>\<open>numDigits_ = 300\<close> and \<^verbatim>\<open>base_ = 1ULL << 32\<close>. An object is modelled by
  the list of its digits, index 0 first (the least significant digit). Objects built by
  the class always have \<open>numDigits\<close> digits; theorems carry this as a hypothesis.
  Machine integers are words: \<^verbatim>\<open>uint32_t\<close>, \<^verbatim>\<open>uint64_t\<close>, and \<^verbatim>\<open>int64_t\<close>
  (a 64-bit word read through \<open>sint\<close>).
\<close>

type_synonym uint32 = "32 word"
type_synonym uint64 = "64 word"
type_synonym int64 = "64 word"
type_synonym HugeInt = "uint32 list"

definition numDigits :: nat where
  "numDigits = 300"

definition base :: uint64 where
  "base = push_bit 32 1"

text \<open>
  Outcomes other than a normal return: the \<^verbatim>\<open>std::invalid_argument\<close> thrown by the string
  constructor, an access to \<^verbatim>\<open>digits_\<close> or \<^verbatim>\<open>triples\<close> past the end of the array
  (undefined behaviour in C++), an integer division by zero (likewise), and a loop that
  never exits.
\<close>

datatype error =
    InvalidArgument string
  | IndexOutOfRange int
  | DivisionByZero
  | Diverges

text \<open>\<^verbatim>\<open>HugeInt() = default\<close> with the member initialiser \<^verbatim>\<open>digits_[numDigits_]{0}\<close>.\<close>

definition HugeInt_default :: HugeInt where
  "HugeInt_default = replicate numDigits 0"

section \<open>Private utility functions\<close>

text \<open>
  The scan \<^verbatim>\<open>for ( ; i > 0 && digits_[i - 1] == 0; --i);\<close> used by \<^verbatim>\<open>isZero\<close> and
  by \<^verbatim>\<open>unsigned_divide\<close>: started at \<open>i\<close>, it returns the final value of the counter.
\<close>

fun sig_digits :: "nat \<Rightarrow> HugeInt \<Rightarrow> nat" where
  "sig_digits 0 ds = 0"
| "sig_digits (Suc i) ds = (if ds ! i = 0 then sig_digits i ds else Suc i)"

definition isZero :: "HugeInt \<Rightarrow> bool" where
  "isZero x = (sig_digits numDigits x = 0)"

definition isNegative :: "HugeInt \<Rightarrow> bool" where
  "isNegative x = (base div 2 \<le> ucast (x ! (numDigits - 1)))"

definition radixComplement_step :: "nat \<Rightarrow> uint64 \<times> HugeInt \<Rightarrow> uint64 \<times> HugeInt" where
  "radixComplement_step i = (\<lambda>(acc, ds).
     let acc = acc + ((base - 1) - ucast (ds ! i))
     in (drop_bit 32 acc, ds[i := ucast acc]))"

definition radixComplement :: "HugeInt \<Rightarrow> HugeInt" where
  "radixComplement x =
     (if \<not> isZero x then snd (fold radixComplement_step [0..<numDigits] (1, x)) else x)"

definition shortMultiply_step ::
  "HugeInt \<Rightarrow> uint32 \<Rightarrow> nat \<Rightarrow> uint64 \<times> HugeInt \<Rightarrow> uint64 \<times> HugeInt" where
  "shortMultiply_step x multiplier i = (\<lambda>(partial, product).
     let partial = partial + ucast (x ! i) * ucast multiplier
     in (drop_bit 32 partial, product[i := ucast partial]))"

definition shortMultiply :: "HugeInt \<Rightarrow> uint32 \<Rightarrow> HugeInt" where
  "shortMultiply x multiplier =
     snd (fold (shortMultiply_step x multiplier) [0..<numDigits] (0, HugeInt_default))"

text \<open>
  \<^verbatim>\<open>shortDivide\<close> returns the quotient and, through the pointer, the remainder; the model
  returns both. The loop runs from \<^verbatim>\<open>numDigits_ - 1\<close> down to 0. A zero divisor makes
  the first \<^verbatim>\<open>partial / divisor\<close> undefined.
\<close>

definition shortDivide_step ::
  "HugeInt \<Rightarrow> uint32 \<Rightarrow> nat \<Rightarrow> uint64 \<times> HugeInt \<Rightarrow> uint64 \<times> HugeInt" where
  "shortDivide_step x divisor i = (\<lambda>(partial, quotient).
     let partial = base * partial + ucast (x ! i)
     in (partial mod ucast divisor, quotient[i := ucast (partial div ucast divisor)]))"

definition shortDivide :: "HugeInt \<Rightarrow> uint32 \<Rightarrow> error + (HugeInt \<times> uint32)" where
  "shortDivide x divisor =
     (if divisor = 0 then Inl DivisionByZero
      else let (partial, quotient) =
                 fold (shortDivide_step x divisor) (rev [0..<numDigits]) (0, HugeInt_default)
           in Inr (quotient, ucast partial))"

definition shiftLeftDigits :: "HugeInt \<Rightarrow> nat \<Rightarrow> HugeInt" where
  "shiftLeftDigits x num =
     (if num = 0 then x
      else let ds = fold (\<lambda>i ds. ds[i + num := ds ! i]) (rev [0..<numDigits - num]) x
           in fold (\<lambda>i ds. ds[i := 0]) [0..<num] ds)"

section \<open>Constructors and unary minus\<close>

text \<open>
  \<^verbatim>\<open>HugeInt(long long x)\<close>. \<^verbatim>\<open>xp % base_\<close> and \<^verbatim>\<open>xp /= base_\<close> are computed in
  \<^verbatim>\<open>uint64_t\<close> (the usual arithmetic conversions), hence the unsigned \<open>mod\<close> and
  \<open>div\<close> of words. \<^verbatim>\<open>llabs(LLONG_MIN)\<close> is undefined in C++; the model wraps there.
\<close>

function ll_digits :: "int64 \<Rightarrow> nat \<Rightarrow> HugeInt \<Rightarrow> HugeInt" where
  "ll_digits xp i ds =
     (if 0 <s xp then ll_digits (xp div base) (Suc i) (ds[i := ucast (xp mod base)]) else ds)"
  by pat_completeness auto
termination
proof (relation "measure (\<lambda>(xp, i, ds). unat xp)")
  show "wf (measure (\<lambda>(xp :: int64, i :: nat, ds :: HugeInt). unat xp))"
    by simp
next
  fix xp :: int64 and i :: nat and ds :: HugeInt
  assume "0 <s xp"
  then have "xp \<noteq> 0"
    by auto
  then have "0 < unat xp"
    by (simp add: unat_gt_0)
  then have "unat xp div 2 ^ 32 < unat xp"
    by simp
  then show "((xp div base, Suc i, ds[i := ucast (xp mod base)]), (xp, i, ds))
               \<in> measure (\<lambda>(xp, i, ds). unat xp)"
    by (simp add: base_def unat_div)
qed

definition HugeInt_ll :: "int64 \<Rightarrow> HugeInt" where
  "HugeInt_ll x =
     (if x = 0 then HugeInt_default
      else let xp = (if x <s 0 then - x else x);
               ds = ll_digits xp 0 HugeInt_default
           in if x <s 0 then radixComplement ds else ds)"

text \<open>Unary \<^verbatim>\<open>operator-\<close>: the radix complement of a copy.\<close>

definition op_neg :: "HugeInt \<Rightarrow> HugeInt" where
  "op_neg x = radixComplement x"

definition getMinimum :: HugeInt where
  "getMinimum = HugeInt_default[numDigits - 1 := ucast (base div 2)]"

section \<open>Binary operators\<close>

definition op_add_step ::
  "HugeInt \<Rightarrow> HugeInt \<Rightarrow> nat \<Rightarrow> uint64 \<times> HugeInt \<Rightarrow> uint64 \<times> HugeInt" where
  "op_add_step a b i = (\<lambda>(partial, total).
     let partial = partial + (ucast (a ! i) + ucast (b ! i))
     in (drop_bit 32 partial, total[i := ucast partial]))"

definition op_add :: "HugeInt \<Rightarrow> HugeInt \<Rightarrow> HugeInt" where
  "op_add a b = snd (fold (op_add_step a b) [0..<numDigits] (0, HugeInt_default))"

definition op_sub :: "HugeInt \<Rightarrow> HugeInt \<Rightarrow> HugeInt" where
  "op_sub a b = op_add a (op_neg b)"

definition op_mul :: "HugeInt \<Rightarrow> HugeInt \<Rightarrow> HugeInt" where
  "op_mul a b =
     fold (\<lambda>i product. op_add product (shiftLeftDigits (shortMultiply a (b ! i)) i))
       [0..<numDigits] HugeInt_default"

subsection \<open>Relational operators\<close>

definition op_eq :: "HugeInt \<Rightarrow> HugeInt \<Rightarrow> bool" where
  "op_eq lhs rhs = isZero (op_sub rhs lhs)"

definition op_ne :: "HugeInt \<Rightarrow> HugeInt \<Rightarrow> bool" where
  "op_ne lhs rhs = (\<not> op_eq rhs lhs)"

definition op_lt :: "HugeInt \<Rightarrow> HugeInt \<Rightarrow> bool" where
  "op_lt lhs rhs = isNegative (op_sub lhs rhs)"

definition op_gt :: "HugeInt \<Rightarrow> HugeInt \<Rightarrow> bool" where
  "op_gt lhs rhs = op_lt rhs lhs"

definition op_le :: "HugeInt \<Rightarrow> HugeInt \<Rightarrow> bool" where
  "op_le lhs rhs = (\<not> op_gt lhs rhs)"

definition op_ge :: "HugeInt \<Rightarrow> HugeInt \<Rightarrow> bool" where
  "op_ge lhs rhs = (\<not> op_lt lhs rhs)"


section \<open>Long division\<close>

text \<open>
  The normalisation loop \<^verbatim>\<open>while (vn < (base_ >> 1)) { vn <<= 1; ++shifts; }\<close>. It never
  exits when \<^verbatim>\<open>vn\<close> is 0, so it is a partial function: \<open>None\<close> is "does not return".
\<close>

partial_function (option) normalise_shifts :: "uint32 \<Rightarrow> nat \<Rightarrow> nat option" where
  "normalise_shifts vn shifts =
     (if (ucast vn :: uint64) < drop_bit 1 base
      then normalise_shifts (push_bit 1 vn) (Suc shifts)
      else Some shifts)"

declare normalise_shifts.simps [code]

text \<open>
  The correction loop on \<^verbatim>\<open>qhat\<close> and \<^verbatim>\<open>rhat\<close>; \<open>v1\<close> and \<open>v2\<close> are
  \<^verbatim>\<open>divisor.digits_[n - 1]\<close> and \<^verbatim>\<open>divisor.digits_[n - 2]\<close>, \<open>u\<close> is
  \<^verbatim>\<open>dividend.digits_[k + n - 2]\<close>. All arithmetic is \<^verbatim>\<open>uint64_t\<close>.
\<close>

function refine_qhat :: "uint64 \<Rightarrow> uint64 \<Rightarrow> uint32 \<Rightarrow> uint32 \<Rightarrow> uint32 \<Rightarrow> uint64 \<times> uint64" where
  "refine_qhat qhat rhat v1 v2 u =
     (if rhat < base \<and> base * rhat + ucast u < qhat * ucast v2
      then refine_qhat (qhat - 1) (rhat + ucast v1) v1 v2 u
      else (qhat, rhat))"
  by pat_completeness auto
termination
proof (relation "measure (\<lambda>(qhat, rhat, v1, v2, u). unat qhat)")
  show "wf (measure (\<lambda>(qhat :: uint64, rhat :: uint64, v1 :: uint32, v2 :: uint32, u :: uint32).
              unat qhat))"
    by simp
next
  fix qhat rhat :: uint64 and v1 v2 u :: uint32
  assume "rhat < base \<and> base * rhat + ucast u < qhat * ucast v2"
  then have "qhat \<noteq> 0"
    by auto
  then have "unat (qhat - 1) < unat qhat"
    by (rule measure_unat)
  then show "((qhat - 1, rhat + ucast v1, v1, v2, u), (qhat, rhat, v1, v2, u))
               \<in> measure (\<lambda>(qhat, rhat, v1, v2, u). unat qhat)"
    by simp
qed

text \<open>
  The multiply-and-subtract loop. \<^verbatim>\<open>carry\<close> and \<^verbatim>\<open>widedigit\<close> are \<^verbatim>\<open>int64_t\<close>;
  the subtractions mix \<^verbatim>\<open>int64_t\<close> and \<^verbatim>\<open>uint64_t\<close>, which C++ computes modulo
  \<open>2 ^ 64\<close>; \<^verbatim>\<open>widedigit >> 32\<close> is the arithmetic shift.
\<close>

definition mulsub_step ::
  "uint64 \<Rightarrow> HugeInt \<Rightarrow> nat \<Rightarrow> nat \<Rightarrow> int64 \<times> HugeInt \<Rightarrow> int64 \<times> HugeInt" where
  "mulsub_step qhat divisor k i = (\<lambda>(carry, dividend).
     let product = (ucast (ucast qhat :: uint32) :: uint64) * ucast (divisor ! i);
         widedigit = (ucast (dividend ! (k + i)) + carry) - (product AND 0xffffffff)
     in (signed_drop_bit 32 widedigit - drop_bit 32 product,
         dividend[k + i := ucast widedigit]))"

definition addback_step ::
  "HugeInt \<Rightarrow> nat \<Rightarrow> nat \<Rightarrow> int64 \<times> HugeInt \<Rightarrow> int64 \<times> HugeInt" where
  "addback_step divisor k i = (\<lambda>(widedigit, dividend).
     let widedigit = widedigit + (ucast (dividend ! (k + i)) + ucast (divisor ! i))
     in (signed_drop_bit 32 widedigit, dividend[k + i := ucast widedigit]))"

text \<open>One pass of the main loop over \<open>k\<close>, on the pair (dividend, quotient).\<close>

definition knuth_step :: "nat \<Rightarrow> HugeInt \<Rightarrow> nat \<Rightarrow> HugeInt \<times> HugeInt \<Rightarrow> HugeInt \<times> HugeInt" where
  "knuth_step n divisor k = (\<lambda>(dividend, quotient).
     let rhat = ucast (dividend ! (k + n)) * base + ucast (dividend ! (k + n - 1));
         qhat = rhat div ucast (divisor ! (n - 1));
         rhat = rhat mod ucast (divisor ! (n - 1));
         (qhat, rhat) = (if qhat = base then (qhat - 1, rhat + ucast (divisor ! (n - 1)))
                         else (qhat, rhat));
         (qhat, rhat) = refine_qhat qhat rhat (divisor ! (n - 1)) (divisor ! (n - 2))
                          (dividend ! (k + n - 2));
         (carry, dividend) = fold (mulsub_step qhat divisor k) [0..<n] (0, dividend);
         widedigit = ucast (dividend ! (k + n)) + carry;
         dividend = dividend[k + n := ucast widedigit];
         quotient = quotient[k := ucast qhat]
     in if widedigit <s 0 then
          (let quotient = quotient[k := quotient ! k - 1];
               (widedigit, dividend) = fold (addback_step divisor k) [0..<n] (0, dividend);
               dividend = dividend[k + n := dividend ! (k + n) + ucast carry]
           in (dividend, quotient))
        else (dividend, quotient))"

text \<open>The bit shift across adjacent digits used to scale divisor and dividend.\<close>

definition shift_up_step :: "nat \<Rightarrow> nat \<Rightarrow> HugeInt \<Rightarrow> HugeInt" where
  "shift_up_step shifts i ds =
     ds[i := ucast ((ucast (push_bit shifts (ds ! i)) :: uint64)
                    OR drop_bit (32 - shifts) (ucast (ds ! (i - 1)) :: uint64))]"

definition shift_down_step :: "nat \<Rightarrow> HugeInt \<Rightarrow> nat \<Rightarrow> HugeInt \<Rightarrow> HugeInt" where
  "shift_down_step shifts dividend i r =
     r[i := ucast ((ucast (drop_bit shifts (dividend ! i)) :: uint64)
                   OR push_bit (32 - shifts) (ucast (dividend ! (i + 1)) :: uint64))]"

definition short_step :: "HugeInt \<Rightarrow> HugeInt \<Rightarrow> nat \<Rightarrow> uint64 \<times> HugeInt \<Rightarrow> uint64 \<times> HugeInt" where
  "short_step dividend divisor i = (\<lambda>(partial, quotient).
     let partial = base * partial + ucast (dividend ! i)
     in (partial mod ucast (divisor ! 0),
         quotient[i := ucast (partial div ucast (divisor ! 0))]))"

text \<open>
  \<^verbatim>\<open>unsigned_divide(a, b, remainder)\<close>. The pointer \<^verbatim>\<open>remainder\<close> is an option:
  \<open>None\<close> is \<^verbatim>\<open>nullptr\<close>, \<open>Some r\<close> is the caller's object; the result holds the
  quotient and the object as the call leaves it. The statement
  \<^verbatim>\<open>if (*remainder != 0) { *remainder == 0LL; }\<close> compares and discards the result, so
  it changes nothing and is left out. In CASE 3 the write to \<^verbatim>\<open>dividend.digits_[m]\<close> is
  past the end of the array when \<open>m = numDigits\<close>; once it is in range, every later index
  is at most \<open>m\<close>.
\<close>

definition unsigned_divide ::
  "HugeInt \<Rightarrow> HugeInt \<Rightarrow> HugeInt option \<Rightarrow> error + HugeInt \<times> HugeInt option" where
  "unsigned_divide a b remainder =
     (let dividend = a;
          divisor = b;
          n = sig_digits numDigits divisor;
          m = sig_digits numDigits dividend;
          quotient = HugeInt_default
      in if m < n then
           Inr (quotient,
                map_option (\<lambda>r. fold (\<lambda>i r. r[i := dividend ! i]) [0..<m] r) remainder)
         else if n < 2 then
           (if 0 < m \<and> divisor ! 0 = 0 then Inl DivisionByZero
            else let (partial, quotient) =
                       fold (short_step dividend divisor) (rev [0..<m]) (0, quotient)
                 in Inr (quotient, map_option (\<lambda>r. r[0 := ucast partial]) remainder))
         else
           (case normalise_shifts (divisor ! (n - 1)) 0 of
              None \<Rightarrow> Inl Diverges
            | Some shifts \<Rightarrow>
               let divisor = fold (shift_up_step shifts) (rev [1..<n]) divisor;
                   divisor = divisor[0 := push_bit shifts (divisor ! 0)]
               in if numDigits \<le> m then Inl (IndexOutOfRange (int m))
                  else
                    let dividend = dividend[m := ucast (drop_bit (32 - shifts)
                                       (ucast (dividend ! (m - 1)) :: uint64))];
                        dividend = fold (shift_up_step shifts) (rev [1..<m]) dividend;
                        dividend = dividend[0 := push_bit shifts (dividend ! 0)];
                        (dividend, quotient) =
                          fold (knuth_step n divisor) (rev [0..<m - n + 1]) (dividend, quotient)
                    in Inr (quotient,
                            map_option (\<lambda>r.
                              let r = fold (shift_down_step shifts dividend) [0..<n - 1] r
                              in r[n - 1 := drop_bit shifts (dividend ! (n - 1))]) remainder)))"

text \<open>
  \<^verbatim>\<open>operator/\<close> and \<^verbatim>\<open>operator%\<close>. The tests \<^verbatim>\<open>a < 0\<close> convert 0 with
  \<^verbatim>\<open>HugeInt(long long)\<close> and call \<^verbatim>\<open>operator<\<close>. \<^verbatim>\<open>operator%\<close> passes the address
  of a default-constructed \<^verbatim>\<open>HugeInt remainder\<close>.
\<close>

definition quotient_of :: "error + HugeInt \<times> HugeInt option \<Rightarrow> error + HugeInt" where
  "quotient_of res = (case res of Inl e \<Rightarrow> Inl e | Inr (q, r) \<Rightarrow> Inr q)"

definition remainder_of :: "error + HugeInt \<times> HugeInt option \<Rightarrow> error + HugeInt" where
  "remainder_of res =
     (case res of Inl e \<Rightarrow> Inl e
      | Inr (q, r) \<Rightarrow> Inr (case r of None \<Rightarrow> HugeInt_default | Some r' \<Rightarrow> r'))"

definition op_div :: "HugeInt \<Rightarrow> HugeInt \<Rightarrow> error + HugeInt" where
  "op_div a b =
     (if op_lt a (HugeInt_ll 0) then
        (if op_lt b (HugeInt_ll 0) then quotient_of (unsigned_divide (op_neg a) (op_neg b) None)
         else map_sum id op_neg (quotient_of (unsigned_divide (op_neg a) b None)))
      else
        (if op_lt b (HugeInt_ll 0) then
           map_sum id op_neg (quotient_of (unsigned_divide a (op_neg b) None))
         else quotient_of (unsigned_divide a b None)))"

definition op_mod :: "HugeInt \<Rightarrow> HugeInt \<Rightarrow> error + HugeInt" where
  "op_mod a b =
     (let remainder = HugeInt_default
      in if op_lt a (HugeInt_ll 0) then
           (if op_lt b (HugeInt_ll 0) then
              map_sum id op_neg
                (remainder_of (unsigned_divide (op_neg a) (op_neg b) (Some remainder)))
            else map_sum id op_neg (remainder_of (unsigned_divide (op_neg a) b (Some remainder))))
         else
           (if op_lt b (HugeInt_ll 0) then
              remainder_of (unsigned_divide a (op_neg b) (Some remainder))
            else remainder_of (unsigned_divide a b (Some remainder))))"

section \<open>Text conversion\<close>

text \<open>
  A C string is modelled by the list of its characters before the terminating NUL.
  \<^verbatim>\<open>std::isdigit\<close> in the "C" locale is true for the characters 0 to 9 only.
\<close>

definition isdigit :: "char \<Rightarrow> bool" where
  "isdigit c = (48 \<le> (of_char c :: nat) \<and> (of_char c :: nat) \<le> 57)"

definition is_all_digits :: "string \<Rightarrow> bool" where
  "is_all_digits str = (if length str = 0 then False else list_all isdigit str)"

definition parse_step :: "string \<Rightarrow> nat \<Rightarrow> HugeInt \<times> HugeInt \<Rightarrow> HugeInt \<times> HugeInt" where
  "parse_step str i = (\<lambda>(theNumber, powerOfTen).
     let digitValue = (of_char (str ! (length str - 1 - i)) :: uint32) - 48
     in (op_add theNumber (shortMultiply powerOfTen digitValue), shortMultiply powerOfTen 10))"

definition HugeInt_str :: "string \<Rightarrow> error + HugeInt" where
  "HugeInt_str str =
     (let len = length str
      in if len = 0 then Inl (InvalidArgument ''empty decimal string in constructor.'')
         else
           let (numDecimalDigits, offset) =
                 (if str ! 0 = CHR ''+'' then (len - 1, 1 :: nat) else (len, 0));
               (flagNegative, numDecimalDigits, offset) =
                 (if str ! 0 = CHR ''-'' then (True, numDecimalDigits - 1, offset + 1)
                  else (False, numDecimalDigits, offset))
           in if \<not> is_all_digits (drop offset str)
              then Inl (InvalidArgument ''string contains non-digit in constructor.'')
              else
                let (theNumber, powerOfTen) =
                      fold (parse_step str) [0..<numDecimalDigits] (HugeInt_default, HugeInt_ll 1)
                in Inr (if flagNegative then radixComplement theNumber else theNumber))"

text \<open>
  \<^verbatim>\<open>operator<<\<close>. The stream's formatting of a \<^verbatim>\<open>uint32_t\<close> is \<open>dec_string\<close>
  (decimal, no padding); with \<^verbatim>\<open>setw(3)\<close> and \<^verbatim>\<open>setfill('0')\<close> it is \<open>pad3\<close>.
  \<^verbatim>\<open>numTriples\<close> is \<^verbatim>\<open>static_cast<int>(300 * 3.211) + 2\<close>. The loop
  \<^verbatim>\<open>while (copy != 0)\<close> stores at \<^verbatim>\<open>triples[i++]\<close>; its first argument counts the
  slots of \<^verbatim>\<open>triples\<close> still free, and the list holds \<^verbatim>\<open>triples[0 .. i - 1]\<close>.
\<close>

definition numTriples :: nat where
  "numTriples = 965"

function dec_string :: "nat \<Rightarrow> string" where
  "dec_string n =
     (if n < 10 then [char_of (48 + n)] else dec_string (n div 10) @ [char_of (48 + n mod 10)])"
  by pat_completeness auto
termination
  by (relation "measure id") auto

definition pad3 :: "string \<Rightarrow> string" where
  "pad3 s = replicate (3 - length s) CHR ''0'' @ s"

fun triples_loop :: "nat \<Rightarrow> HugeInt \<Rightarrow> uint32 list \<Rightarrow> error + uint32 list" where
  "triples_loop 0 copy triples =
     (if op_ne copy (HugeInt_ll 0) then Inl (IndexOutOfRange (int numTriples)) else Inr triples)"
| "triples_loop (Suc room) copy triples =
     (if op_ne copy (HugeInt_ll 0) then
        (case shortDivide copy 1000 of
           Inl e \<Rightarrow> Inl e
         | Inr (q, remainder) \<Rightarrow> triples_loop room q (triples @ [remainder]))
      else Inr triples)"

definition op_output :: "HugeInt \<Rightarrow> error + string" where
  "op_output x =
     (if op_eq x (HugeInt_ll 0) then Inr ''0''
      else
        let (sign, copy) = (if op_lt x (HugeInt_ll 0) then (''-'', op_neg x) else ([], x))
        in case triples_loop numTriples copy [] of
             Inl e \<Rightarrow> Inl e
           | Inr triples \<Rightarrow>
              (case rev triples of
                 [] \<Rightarrow> Inl (IndexOutOfRange (- 1))
               | t # ts \<Rightarrow>
                  Inr (sign @ dec_string (unat t)
                       @ concat (map (\<lambda>t. CHR '','' # pad3 (dec_string (unat t))) ts))))"

text \<open>Rendering to decimal text, then constructing from that text.\<close>

definition parse_render :: "HugeInt \<Rightarrow> error + HugeInt" where
  "parse_render x = (case op_output x of Inl e \<Rightarrow> Inl e | Inr s \<Rightarrow> HugeInt_str s)"

section \<open>Semantic value\<close>

text \<open>
  The value of a digit array, \<open>sum (digit[i] * (2^32)^i)\<close>, and its reading under the
  radix complement: with the top digit at least \<open>2^31\<close> it denotes \<open>value - (2^32)^N\<close>.
\<close>

definition radix :: nat where
  "radix = 2 ^ 32"

definition halfradix :: nat where
  "halfradix = 2 ^ 31"

definition modulus :: nat where
  "modulus = radix ^ numDigits"

definition uval :: "HugeInt \<Rightarrow> nat" where
  "uval ds = (\<Sum>i<length ds. unat (ds ! i) * radix ^ i)"

definition sval :: "HugeInt \<Rightarrow> int" where
  "sval x = (if isNegative x then int (uval x) - int modulus else int (uval x))"

text \<open>A strict weak order on a set: irreflexive, transitive, with transitive incomparability.\<close>

definition strict_weak_order_on :: "HugeInt set \<Rightarrow> (HugeInt \<Rightarrow> HugeInt \<Rightarrow> bool) \<Rightarrow> bool" where
  "strict_weak_order_on S lt \<longleftrightarrow>
     (\<forall>a\<in>S. \<not> lt a a) \<and>
     (\<forall>a\<in>S. \<forall>b\<in>S. \<forall>c\<in>S. lt a b \<and> lt b c \<longrightarrow> lt a c) \<and>
     (\<forall>a\<in>S. \<forall>b\<in>S. \<forall>c\<in>S.
        \<not> lt a b \<and> \<not> lt b a \<and> \<not> lt b c \<and> \<not> lt c b \<longrightarrow> \<not> lt a c \<and> \<not> lt c a)"


text \<open>Spec: the value of a decimal digit character, and of a string of them read as a
  decimal numeral (most significant digit first).\<close>

definition digit_val :: "char \<Rightarrow> nat" where
  "digit_val c = of_char c - 48"

definition dec_value :: "string \<Rightarrow> nat" where
  "dec_value s = foldl (\<lambda>v c. 10 * v + digit_val c) 0 s"

text \<open>Spec: the format \<open>[+-]?[0-9]+\<close>, an optional single leading sign followed by one
  or more decimal digits, and the integer such a string denotes.\<close>

definition well_formed :: "string \<Rightarrow> bool" where
  "well_formed s =
     (case s of
        [] \<Rightarrow> False
      | c # cs \<Rightarrow>
         if c = CHR ''+'' \<or> c = CHR ''-'' then cs \<noteq> [] \<and> list_all isdigit cs
         else list_all isdigit (c # cs))"

definition denoted :: "string \<Rightarrow> int" where
  "denoted s =
     (case s of
        [] \<Rightarrow> 0
      | c # cs \<Rightarrow>
         if c = CHR ''-'' then - int (dec_value cs)
         else if c = CHR ''+'' then int (dec_value cs)
         else int (dec_value (c # cs)))"

text \<open>Spec: the sum of the last \<open>k\<close> digits of a string weighted by powers of ten,
  least significant digit first, as the constructor's loop accumulates it.\<close>

definition lsd_sum :: "string \<Rightarrow> nat \<Rightarrow> nat" where
  "lsd_sum s k = (\<Sum>i<k. digit_val (s ! (length s - 1 - i)) * 10 ^ i)"

section \<open>Words and digit sums\<close>

lemma radix_pos [simp]: "0 < radix"
  by (simp add: radix_def)

lemma radix_gt1 [simp]: "1 < radix"
  by (simp add: radix_def)

lemma radix_neq0 [simp]: "radix \<noteq> 0"
  by (simp add: radix_def)

lemma radix_half: "radix = 2 * halfradix"
  by (simp add: radix_def halfradix_def)

lemma unat32_lt: "unat (x :: uint32) < radix"
  using unsigned_less [of x] by (simp add: radix_def)

lemma unat64_lt: "unat (w :: uint64) < radix * radix"
  using unsigned_less [of w] by (simp add: radix_def)

lemma unat_up [simp]: "unat (ucast (x :: uint32) :: uint64) = unat x"
proof -
  have "unat x < 2 ^ 64"
    using unat32_lt [of x] by (simp add: radix_def)
  then show ?thesis
    by (simp add: unsigned_ucast_eq take_bit_nat_eq_self)
qed

lemma unat_down: "unat (ucast (w :: uint64) :: uint32) = unat w mod radix"
  by (simp add: unsigned_ucast_eq take_bit_eq_mod radix_def)

lemma unat_drop32: "unat (drop_bit 32 (w :: uint64)) = unat w div radix"
  by (simp add: drop_bit_eq_div unat_div radix_def)

lemma unat_add64: "a + b < radix * radix \<Longrightarrow> unat x = a \<Longrightarrow> unat y = b \<Longrightarrow> unat (x + y :: uint64) = a + b"
  by (simp add: unat_word_ariths radix_def)

lemma unat_mult64: "a * b < radix * radix \<Longrightarrow> unat x = a \<Longrightarrow> unat y = b \<Longrightarrow> unat (x * y :: uint64) = a * b"
  by (simp add: unat_word_ariths radix_def)

lemma unat_base [simp]: "unat base = radix"
  by (simp add: base_def radix_def)

lemma uval_Nil [simp]: "uval [] = 0"
  by (simp add: uval_def)

lemma uval_snoc: "uval (ds @ [d]) = uval ds + unat d * radix ^ length ds"
  by (simp add: uval_def nth_append)

lemma uval_take_Suc:
  "k < length ds \<Longrightarrow> uval (take (Suc k) ds) = uval (take k ds) + unat (ds ! k) * radix ^ k"
  by (simp add: take_Suc_conv_app_nth uval_snoc)

lemma uval_lt: "uval ds < radix ^ length ds"
proof (induction ds rule: rev_induct)
  case Nil
  show ?case by simp
next
  case (snoc d ds)
  have "unat d + 1 \<le> radix"
    using unat32_lt [of d] by simp
  then have "(unat d + 1) * radix ^ length ds \<le> radix * radix ^ length ds"
    by (rule mult_le_mono1)
  with snoc show ?case
    by (simp add: uval_snoc algebra_simps)
qed

lemma uval_inj: "length xs = length ys \<Longrightarrow> uval xs = uval ys \<Longrightarrow> xs = ys"
proof (induction xs arbitrary: ys rule: rev_induct)
  case Nil
  then show ?case by simp
next
  case (snoc x xs)
  from snoc.prems(1) obtain y ys' where ys: "ys = ys' @ [y]" and len: "length xs = length ys'"
    by (cases ys rule: rev_cases) auto
  let ?P = "radix ^ length xs"
  have eq: "uval xs + unat x * ?P = uval ys' + unat y * ?P"
    using snoc.prems(2) ys len by (simp add: uval_snoc)
  have lx: "uval xs < ?P" and ly: "uval ys' < ?P"
    using uval_lt [of xs] uval_lt [of ys'] len by simp_all
  have "(uval xs + unat x * ?P) div ?P = (uval ys' + unat y * ?P) div ?P"
    using eq by simp
  then have xy: "unat x = unat y"
    using lx ly by simp
  with eq have "uval xs = uval ys'"
    by simp
  with snoc.IH len have "xs = ys'"
    by blast
  with xy ys show ?case
    by (simp add: word_unat_eq_iff)
qed

lemma uval_replicate_0 [simp]: "uval (replicate n 0) = 0"
  by (simp add: uval_def)

lemma take_Suc_update: "k < length s \<Longrightarrow> take (Suc k) (s[k := v]) = take k s @ [v]"
  by (simp add: take_Suc_conv_app_nth)

lemma uval_take_Suc_update:
  "k < length s \<Longrightarrow> uval (take (Suc k) (s[k := v])) = uval (take k s) + unat v * radix ^ k"
  by (simp add: take_Suc_update uval_snoc)

lemma split_digit: "(c :: nat) mod radix * radix ^ k + c div radix * (radix * radix ^ k) = c * radix ^ k"
proof -
  have "(c mod radix + c div radix * radix) * radix ^ k =
        c mod radix * radix ^ k + c div radix * (radix * radix ^ k)"
    by (simp only: distrib_right mult.assoc)
  then show ?thesis by simp
qed

subsection \<open>operator+\<close>

lemma op_add_loop:
  assumes "length t0 = numDigits" "length a = numDigits" "length b = numDigits"
    and "k \<le> numDigits" "fold (op_add_step a b) [0..<k] (0, t0) = (p, t)"
  shows "length t = numDigits \<and> unat p \<le> 1 \<and>
         uval (take k t) + unat p * radix ^ k = uval (take k a) + uval (take k b)"
  using assms(4,5)
proof (induction k arbitrary: p t)
  case 0
  then show ?case using assms(1) by auto
next
  case (Suc k)
  obtain p' t' where pt: "fold (op_add_step a b) [0..<k] (0, t0) = (p', t')"
    by (cases "fold (op_add_step a b) [0..<k] (0, t0)")
  from Suc.IH [OF _ pt] Suc.prems(1) have len: "length t' = numDigits" and p1: "unat p' \<le> 1"
    and inv: "uval (take k t') + unat p' * radix ^ k = uval (take k a) + uval (take k b)"
    by simp_all
  let ?c = "unat p' + (unat (a ! k) + unat (b ! k))"
  let ?w = "p' + (ucast (a ! k) + ucast (b ! k)) :: uint64"
  have bnd: "?c < radix + radix"
    using p1 unat32_lt [of "a ! k"] unat32_lt [of "b ! k"] by simp
  have "radix + radix \<le> radix * radix"
    by (simp add: radix_def)
  with bnd have w: "unat ?w = ?c"
    by (intro unat_add64) simp_all
  have c1: "?c div radix \<le> 1"
  proof -
    have "?c div radix < 2"
      using bnd by (simp add: less_mult_imp_div_less)
    then show ?thesis by simp
  qed
  have kl: "k < length t'" "k < numDigits"
    using Suc.prems len by simp_all
  have "fold (op_add_step a b) [0..<Suc k] (0, t0) = (drop_bit 32 ?w, t'[k := ucast ?w])"
    by (simp add: pt op_add_step_def Let_def)
  with Suc.prems(2) have p: "p = drop_bit 32 ?w" and t: "t = t'[k := ucast ?w]"
    by simp_all
  have "uval (take (Suc k) t) + unat p * radix ^ Suc k = uval (take k t') + ?c * radix ^ k"
    using kl by (simp add: p t uval_take_Suc_update unat_down unat_drop32 w split_digit)
  also have "\<dots> = uval (take (Suc k) a) + uval (take (Suc k) b)"
    using kl assms(2,3) inv by (simp add: uval_take_Suc algebra_simps)
  finally show ?case
    using len c1 by (simp add: p t unat_drop32 w)
qed

lemma modulus_pos [simp]: "0 < modulus"
  by (simp add: modulus_def)

lemma uval_lt_modulus: "length x = numDigits \<Longrightarrow> uval x < modulus"
  using uval_lt [of x] by (simp add: modulus_def)

lemma HugeInt_default_length [simp]: "length HugeInt_default = numDigits"
  by (simp add: HugeInt_default_def)

lemma HugeInt_default_uval [simp]: "uval HugeInt_default = 0"
  by (simp add: HugeInt_default_def)

lemma op_add_length [simp]:
  assumes "length a = numDigits" "length b = numDigits"
  shows "length (op_add a b) = numDigits"
proof -
  obtain p t where pt: "fold (op_add_step a b) [0..<numDigits] (0, HugeInt_default) = (p, t)"
    by (cases "fold (op_add_step a b) [0..<numDigits] (0, HugeInt_default)")
  from op_add_loop [OF HugeInt_default_length assms le_refl pt] show ?thesis
    by (simp add: op_add_def pt)
qed

lemma op_add_uval:
  assumes "length a = numDigits" "length b = numDigits"
  shows "uval (op_add a b) = (uval a + uval b) mod modulus"
proof -
  obtain p t where pt: "fold (op_add_step a b) [0..<numDigits] (0, HugeInt_default) = (p, t)"
    by (cases "fold (op_add_step a b) [0..<numDigits] (0, HugeInt_default)")
  from op_add_loop [OF HugeInt_default_length assms le_refl pt]
  have len: "length t = numDigits"
    and "uval (take numDigits t) + unat p * radix ^ numDigits
          = uval (take numDigits a) + uval (take numDigits b)"
    by blast+
  then have eq: "uval t + unat p * modulus = uval a + uval b"
    using assms by (simp add: modulus_def)
  have "(uval t + unat p * modulus) mod modulus = uval t"
    using uval_lt_modulus [OF len] by simp
  with eq show ?thesis
    by (simp add: op_add_def pt)
qed

subsection \<open>isZero, isNegative\<close>

lemma sig_digits_le: "sig_digits k x \<le> k"
  by (induction k) simp_all

lemma sig_digits_0_iff: "sig_digits k x = 0 \<longleftrightarrow> (\<forall>i<k. x ! i = 0)"
  by (induction k) (auto simp: less_Suc_eq)

lemma sig_digits_top: "0 < sig_digits k x \<Longrightarrow> x ! (sig_digits k x - 1) \<noteq> 0"
  by (induction k) (auto split: if_splits)

lemma sig_digits_above: "sig_digits k x \<le> i \<Longrightarrow> i < k \<Longrightarrow> x ! i = 0"
  by (induction k) (auto simp: less_Suc_eq split: if_splits)

lemma uval_0_iff: "uval x = 0 \<longleftrightarrow> (\<forall>i<length x. x ! i = 0)"
  by (auto simp: uval_def unat_eq_0)

lemma isZero_iff_uval: "length x = numDigits \<Longrightarrow> isZero x \<longleftrightarrow> uval x = 0"
  by (simp add: isZero_def sig_digits_0_iff uval_0_iff)

lemma isZero_iff_default: "length x = numDigits \<Longrightarrow> isZero x \<longleftrightarrow> x = HugeInt_default"
proof -
  assume len: "length x = numDigits"
  have "uval x = 0 \<longleftrightarrow> x = HugeInt_default"
    using uval_inj [of x HugeInt_default] len by (auto simp: HugeInt_default_def)
  with len show ?thesis
    by (simp add: isZero_iff_uval)
qed

lemma numDigits_pos [simp]: "0 < numDigits"
  by (simp add: numDigits_def)

lemma uval_split_top:
  assumes "length x = numDigits"
  shows "uval x = uval (take (numDigits - 1) x) + unat (x ! (numDigits - 1)) * radix ^ (numDigits - 1)"
proof -
  have "numDigits - 1 < length x"
    using assms by simp
  from uval_take_Suc [OF this] show ?thesis
    using assms by simp
qed

lemma modulus_split: "modulus = radix * radix ^ (numDigits - 1)"
proof -
  have "Suc (numDigits - 1) = numDigits"
    by simp
  with power_Suc [of radix "numDigits - 1"] show ?thesis
    by (simp only: modulus_def)
qed

lemma twice_le: "(a::nat) \<le> b \<Longrightarrow> 2 * a \<le> 2 * (l + b)"
  by simp

lemma twice_not_le: "l + b < (a::nat) \<Longrightarrow> \<not> 2 * a \<le> 2 * (l + b)"
  by simp

lemma isNegative_iff_uval:
  assumes "length x = numDigits"
  shows "isNegative x \<longleftrightarrow> modulus \<le> 2 * uval x"
proof -
  let ?T = "radix ^ (numDigits - 1)"
  let ?d = "unat (x ! (numDigits - 1))"
  let ?l = "uval (take (numDigits - 1) x)"
  let ?h = "halfradix"
  have l: "?l < ?T"
    using uval_lt [of "take (numDigits - 1) x"] assms by simp
  have u: "uval x = ?l + ?d * ?T"
    by (rule uval_split_top [OF assms])
  have m: "modulus = 2 * (?h * ?T)"
    by (simp add: modulus_split radix_half)
  have neg: "isNegative x \<longleftrightarrow> ?h \<le> ?d"
    by (simp add: isNegative_def word_le_nat_alt unat_div base_def halfradix_def)
  show ?thesis
  proof (cases "?h \<le> ?d")
    case True
    then have "?h * ?T \<le> ?d * ?T"
      by (rule mult_le_mono1)
    then have "modulus \<le> 2 * uval x"
      unfolding m u by (rule twice_le)
    with True show ?thesis
      by (simp add: neg)
  next
    case False
    then have "?d + 1 \<le> ?h"
      by simp
    then have "(?d + 1) * ?T \<le> ?h * ?T"
      by (rule mult_le_mono1)
    with l have "?l + ?d * ?T < ?h * ?T"
      by simp
    then have "\<not> modulus \<le> 2 * uval x"
      unfolding m u by (rule twice_not_le)
    with False show ?thesis
      by (simp add: neg)
  qed
qed

subsection \<open>radixComplement\<close>

lemma unat_base_minus_1: "unat (base - 1) = radix - 1"
  by (simp add: base_def radix_def)

lemma unat_digit_complement: "unat ((base - 1) - ucast (d :: uint32) :: uint64) = radix - 1 - unat d"
proof -
  have "unat (ucast d :: uint64) \<le> unat (base - 1)"
    using unat32_lt [of d] by (simp add: unat_base_minus_1)
  then have "(ucast d :: uint64) \<le> base - 1"
    by (simp add: word_le_nat_alt)
  then show ?thesis
    by (simp add: unat_sub unat_base_minus_1)
qed

lemma pred_mult_add: "0 < (r::nat) \<Longrightarrow> p + (r - 1) * p = r * p"
  by (cases r) simp_all

lemma radixComplement_loop:
  assumes "length x = numDigits"
    and "k \<le> numDigits" "fold radixComplement_step [0..<k] (1, x) = (acc, ds)"
  shows "length ds = numDigits \<and> unat acc \<le> 1 \<and> (\<forall>i\<ge>k. ds ! i = x ! i) \<and>
         uval (take k ds) + unat acc * radix ^ k + uval (take k x) = radix ^ k"
  using assms(2,3)
proof (induction k arbitrary: acc ds)
  case 0
  then show ?case using assms(1) by auto
next
  case (Suc k)
  obtain acc' ds' where pt: "fold radixComplement_step [0..<k] (1, x) = (acc', ds')"
    by (cases "fold radixComplement_step [0..<k] (1, x)")
  from Suc.IH [OF _ pt] Suc.prems(1) have len: "length ds' = numDigits" and p1: "unat acc' \<le> 1"
    and same: "\<forall>i\<ge>k. ds' ! i = x ! i"
    and inv: "uval (take k ds') + unat acc' * radix ^ k + uval (take k x) = radix ^ k"
    by simp_all
  let ?d = "unat (x ! k)"
  let ?c = "unat acc' + (radix - 1 - ?d)"
  let ?w = "acc' + ((base - 1) - ucast (x ! k)) :: uint64"
  have dk: "ds' ! k = x ! k"
    using same by simp
  have dlt: "?d < radix"
    by (rule unat32_lt)
  have bnd: "?c < radix + radix"
    using p1 radix_pos by linarith
  have "radix + radix \<le> radix * radix"
    by (simp add: radix_def)
  with bnd have w: "unat ?w = ?c"
    by (intro unat_add64) (simp_all add: unat_digit_complement)
  have c1: "?c div radix \<le> 1"
  proof -
    have "?c div radix < 2"
      using bnd by (simp add: less_mult_imp_div_less)
    then show ?thesis by simp
  qed
  have kl: "k < length ds'" "k < numDigits" "k < length x"
    using Suc.prems len assms(1) by simp_all
  have "fold radixComplement_step [0..<Suc k] (1, x) = (drop_bit 32 ?w, ds'[k := ucast ?w])"
    by (simp add: pt radixComplement_step_def Let_def dk)
  with Suc.prems(2) have p: "acc = drop_bit 32 ?w" and t: "ds = ds'[k := ucast ?w]"
    by simp_all
  have "uval (take (Suc k) ds) + unat acc * radix ^ Suc k + uval (take (Suc k) x)
        = uval (take k ds') + ?c * radix ^ k + (uval (take k x) + ?d * radix ^ k)"
    using kl by (simp add: p t uval_take_Suc_update uval_take_Suc unat_down unat_drop32 w split_digit)
  also have "\<dots> = (uval (take k ds') + unat acc' * radix ^ k + uval (take k x))
                 + ((radix - 1 - ?d) + ?d) * radix ^ k"
    by (simp add: algebra_simps)
  also have "\<dots> = radix ^ k + (radix - 1) * radix ^ k"
    using dlt by (simp add: inv)
  also have "\<dots> = radix ^ Suc k"
    by (simp only: pred_mult_add [OF radix_pos] power_Suc)
  finally have main: "uval (take (Suc k) ds) + unat acc * radix ^ Suc k + uval (take (Suc k) x)
        = radix ^ Suc k" .
  have "\<forall>i\<ge>Suc k. ds ! i = x ! i"
    using same by (simp add: t)
  with main show ?case
    using len c1 by (simp add: p t unat_drop32 w)
qed

lemma radixComplement_length [simp]:
  assumes "length x = numDigits"
  shows "length (radixComplement x) = numDigits"
proof (cases "isZero x")
  case True
  then show ?thesis by (simp add: radixComplement_def assms)
next
  case False
  obtain acc ds where pt: "fold radixComplement_step [0..<numDigits] (1, x) = (acc, ds)"
    by (cases "fold radixComplement_step [0..<numDigits] (1, x)")
  from radixComplement_loop [OF assms le_refl pt] False show ?thesis
    by (simp add: radixComplement_def pt)
qed

lemma radixComplement_uval:
  assumes "length x = numDigits"
  shows "uval (radixComplement x) = (modulus - uval x) mod modulus"
proof (cases "isZero x")
  case True
  then show ?thesis
    using assms by (simp add: radixComplement_def isZero_iff_uval)
next
  case False
  then have pos: "0 < uval x"
    using assms by (simp add: isZero_iff_uval)
  obtain acc ds where pt: "fold radixComplement_step [0..<numDigits] (1, x) = (acc, ds)"
    by (cases "fold radixComplement_step [0..<numDigits] (1, x)")
  from radixComplement_loop [OF assms le_refl pt]
  have len: "length ds = numDigits"
    and "uval (take numDigits ds) + unat acc * radix ^ numDigits + uval (take numDigits x)
           = radix ^ numDigits"
    by blast+
  then have eq: "uval ds + unat acc * modulus + uval x = modulus"
    using assms by (simp add: modulus_def)
  have "unat acc = 0"
  proof (rule ccontr)
    assume "unat acc \<noteq> 0"
    then have "modulus \<le> unat acc * modulus"
      by simp
    with eq pos show False
      by linarith
  qed
  with eq have "uval ds = modulus - uval x"
    by simp
  moreover have "modulus - uval x < modulus"
    using pos by simp
  ultimately show ?thesis
    using False by (simp add: radixComplement_def pt)
qed

lemma op_neg_length [simp]: "length x = numDigits \<Longrightarrow> length (op_neg x) = numDigits"
  by (simp add: op_neg_def)

lemma op_neg_uval: "length x = numDigits \<Longrightarrow> uval (op_neg x) = (modulus - uval x) mod modulus"
  by (simp add: op_neg_def radixComplement_uval)

lemma op_sub_length [simp]:
  "length a = numDigits \<Longrightarrow> length b = numDigits \<Longrightarrow> length (op_sub a b) = numDigits"
  by (simp add: op_sub_def)

lemma op_sub_uval:
  assumes "length a = numDigits" "length b = numDigits"
  shows "uval (op_sub a b) = (uval a + (modulus - uval b)) mod modulus"
  using assms by (simp add: op_sub_def op_add_uval op_neg_uval mod_simps)

lemma radixComplement_involution:
  assumes "length x = numDigits"
  shows "radixComplement (radixComplement x) = x"
proof (rule uval_inj)
  show "length (radixComplement (radixComplement x)) = length x"
    using assms by simp
  have lt: "uval x < modulus"
    by (rule uval_lt_modulus [OF assms])
  show "uval (radixComplement (radixComplement x)) = uval x"
  proof (cases "uval x = 0")
    case True
    then show ?thesis
      using assms by (simp add: radixComplement_uval)
  next
    case False
    then have "(modulus - uval x) mod modulus = modulus - uval x"
      by simp
    with lt show ?thesis
      using assms by (simp add: radixComplement_uval)
  qed
qed

lemma op_eq_iff:
  assumes "length a = numDigits" "length b = numDigits"
  shows "op_eq a b \<longleftrightarrow> a = b"
proof -
  have la: "uval a < modulus" and lb: "uval b < modulus"
    using assms by (simp_all add: uval_lt_modulus)
  have "op_eq a b \<longleftrightarrow> (uval b + (modulus - uval a)) mod modulus = 0"
    using assms by (simp add: op_eq_def isZero_iff_uval op_sub_uval)
  also have "\<dots> \<longleftrightarrow> uval a = uval b"
  proof (cases "uval a \<le> uval b")
    case True
    then have "uval b + (modulus - uval a) = (uval b - uval a) + modulus"
      using la by simp
    then have "(uval b + (modulus - uval a)) mod modulus = (uval b - uval a + modulus) mod modulus"
      by (rule arg_cong)
    also have "\<dots> = (uval b - uval a) mod modulus"
      by simp
    also have "\<dots> = uval b - uval a"
      using lb by simp
    finally show ?thesis
      using True by auto
  next
    case False
    then have v: "0 < uval b + (modulus - uval a)" "uval b + (modulus - uval a) < modulus"
      using la by linarith+
    then have "(uval b + (modulus - uval a)) mod modulus = uval b + (modulus - uval a)"
      by (intro mod_less)
    with v(1) have "(uval b + (modulus - uval a)) mod modulus \<noteq> 0"
      by linarith
    with False show ?thesis by auto
  qed
  also have "\<dots> \<longleftrightarrow> a = b"
    using uval_inj [of a b] assms by auto
  finally show ?thesis .
qed

subsection \<open>Signed value\<close>

lemma modulus_even: "modulus = 2 * (modulus div 2)"
  by (simp add: modulus_split radix_half)

lemma modulus_half_pos: "0 < modulus div 2"
  using modulus_even modulus_pos by linarith

lemma sval_alt:
  "length x = numDigits \<Longrightarrow>
     sval x = (if modulus \<le> 2 * uval x then int (uval x) - int modulus else int (uval x))"
  by (simp add: sval_def isNegative_iff_uval)

lemma sval_lower: "length x = numDigits \<Longrightarrow> - int (modulus div 2) \<le> sval x"
  using modulus_even by (simp add: sval_alt)

lemma sval_upper: "length x = numDigits \<Longrightarrow> sval x < int (modulus div 2)"
  using modulus_even uval_lt_modulus [of x] by (simp add: sval_alt)

lemma sval_mod: "length x = numDigits \<Longrightarrow> sval x mod int modulus = int (uval x)"
  using uval_lt_modulus [of x] by (simp add: sval_alt)

lemma uval_of_sval: "length x = numDigits \<Longrightarrow> int (uval x) = sval x mod int modulus"
  by (simp add: sval_mod)

lemma wrap_range:
  fixes v :: int
  shows "- int (modulus div 2) \<le> (v + int (modulus div 2)) mod int modulus - int (modulus div 2)"
    and "(v + int (modulus div 2)) mod int modulus - int (modulus div 2) < int (modulus div 2)"
proof -
  have "0 \<le> (v + int (modulus div 2)) mod int modulus"
    by simp
  then show "- int (modulus div 2) \<le> (v + int (modulus div 2)) mod int modulus - int (modulus div 2)"
    by linarith
  have "(v + int (modulus div 2)) mod int modulus < int modulus"
    by simp
  then show "(v + int (modulus div 2)) mod int modulus - int (modulus div 2) < int (modulus div 2)"
    using modulus_even by linarith
qed

lemma sval_wrap:
  assumes "length x = numDigits"
  shows "sval x = (int (uval x) + int (modulus div 2)) mod int modulus - int (modulus div 2)"
proof (cases "modulus \<le> 2 * uval x")
  case True
  have "(int (uval x) + int (modulus div 2)) mod int modulus
        = (int (uval x) - int (modulus div 2) + int modulus) mod int modulus"
    using modulus_even by (intro arg_cong [where f = "\<lambda>v. v mod int modulus"]) linarith
  also have "\<dots> = (int (uval x) - int (modulus div 2)) mod int modulus"
    by simp
  also have "\<dots> = int (uval x) - int (modulus div 2)"
    using True modulus_even uval_lt_modulus [OF assms] by (intro mod_pos_pos_trivial) linarith+
  finally show ?thesis
    using True modulus_even assms by (simp add: sval_alt)
next
  case False
  then have "(int (uval x) + int (modulus div 2)) mod int modulus = int (uval x) + int (modulus div 2)"
    using modulus_even by (intro mod_pos_pos_trivial) linarith+
  with False show ?thesis
    using assms by (simp add: sval_alt)
qed

lemma sval_eq_wrapI:
  assumes "length x = numDigits" "int (uval x) = v mod int modulus"
  shows "sval x = (v + int (modulus div 2)) mod int modulus - int (modulus div 2)"
  by (simp add: sval_wrap [OF assms(1)] assms(2) mod_simps)

lemma op_add_sval:
  assumes "length a = numDigits" "length b = numDigits"
  shows "sval (op_add a b)
         = (sval a + sval b + int (modulus div 2)) mod int modulus - int (modulus div 2)"
proof (rule sval_eq_wrapI)
  show "length (op_add a b) = numDigits"
    using assms by simp
  have "int (uval (op_add a b)) = (int (uval a) + int (uval b)) mod int modulus"
    using assms by (simp add: op_add_uval zmod_int)
  also have "\<dots> = (sval a mod int modulus + sval b mod int modulus) mod int modulus"
    using assms by (simp add: sval_mod)
  also have "\<dots> = (sval a + sval b) mod int modulus"
    by (simp add: mod_simps)
  finally show "int (uval (op_add a b)) = (sval a + sval b) mod int modulus" .
qed

lemma uval_update_default:
  assumes "i < numDigits"
  shows "uval (HugeInt_default[i := v]) = unat v * radix ^ i"
proof -
  have "\<And>j. j < numDigits \<Longrightarrow>
          unat (HugeInt_default[i := v] ! j) * radix ^ j = (if i = j then unat v * radix ^ j else 0)"
    by (simp add: HugeInt_default_def nth_list_update)
  then have "uval (HugeInt_default[i := v])
        = (\<Sum>j<numDigits. if i = j then unat v * radix ^ j else 0)"
    unfolding uval_def by (intro sum.cong) simp_all
  also have "\<dots> = unat v * radix ^ i"
    using assms by simp
  finally show ?thesis .
qed

lemma getMinimum_length [simp]: "length getMinimum = numDigits"
  by (simp add: getMinimum_def)

lemma modulus_div_2: "modulus div 2 = halfradix * radix ^ (numDigits - 1)"
  by (simp add: modulus_split radix_half)

lemma getMinimum_uval: "uval getMinimum = modulus div 2"
proof -
  have "unat (ucast (base div 2) :: uint32) = halfradix"
    by (simp add: base_def halfradix_def)
  then show ?thesis
    by (simp add: getMinimum_def uval_update_default modulus_div_2)
qed

lemma getMinimum_sval: "sval getMinimum = - int (modulus div 2)"
  using modulus_even by (simp add: sval_alt getMinimum_uval)

lemma op_neg_getMinimum: "op_neg getMinimum = getMinimum"
proof (rule uval_inj)
  show "length (op_neg getMinimum) = length getMinimum"
    by simp
  have "modulus - modulus div 2 = modulus div 2"
    using modulus_even by linarith
  moreover have "modulus div 2 < modulus"
    using modulus_even modulus_pos by linarith
  ultimately show "uval (op_neg getMinimum) = uval getMinimum"
    by (simp add: op_neg_uval getMinimum_uval)
qed

lemma isNegative_iff_sval: "length x = numDigits \<Longrightarrow> isNegative x \<longleftrightarrow> sval x < 0"
  using uval_lt_modulus [of x] by (simp add: sval_def)

lemma op_sub_sval:
  assumes "length a = numDigits" "length b = numDigits"
  shows "sval (op_sub a b)
         = (sval a - sval b + int (modulus div 2)) mod int modulus - int (modulus div 2)"
proof (rule sval_eq_wrapI)
  show "length (op_sub a b) = numDigits"
    using assms by simp
  have lb: "uval b < modulus"
    using assms by (simp add: uval_lt_modulus)
  have "int (uval (op_sub a b)) = (int (uval a) + (int modulus - int (uval b))) mod int modulus"
    using assms lb by (simp add: op_sub_uval zmod_int add_diff_eq)
  also have "\<dots> = (int (uval a) - int (uval b) + int modulus) mod int modulus"
    by (simp add: algebra_simps)
  also have "\<dots> = (int (uval a) - int (uval b)) mod int modulus"
    by (rule mod_add_self2)
  also have "\<dots> = (sval a mod int modulus - sval b mod int modulus) mod int modulus"
    using assms by (simp add: sval_mod)
  also have "\<dots> = (sval a - sval b) mod int modulus"
    by (simp add: mod_simps)
  finally show "int (uval (op_sub a b)) = (sval a - sval b) mod int modulus" .
qed

lemma wrap_id:
  fixes d :: int
  assumes "- int (modulus div 2) \<le> d" "d < int (modulus div 2)"
  shows "(d + int (modulus div 2)) mod int modulus - int (modulus div 2) = d"
proof -
  have "(d + int (modulus div 2)) mod int modulus = d + int (modulus div 2)"
    using assms modulus_even by (intro mod_pos_pos_trivial) linarith+
  then show ?thesis by simp
qed

lemma op_lt_iff_sval_sub:
  "length a = numDigits \<Longrightarrow> length b = numDigits \<Longrightarrow> op_lt a b \<longleftrightarrow> sval (op_sub a b) < 0"
  by (simp add: op_lt_def isNegative_iff_sval)

lemma op_lt_near:
  assumes "length a = numDigits" "length b = numDigits"
    and "\<bar>sval a - sval b\<bar> < int (modulus div 2)"
  shows "op_lt a b \<longleftrightarrow> sval a < sval b"
    and "sval (op_sub b a) = sval b - sval a"
proof -
  have "sval (op_sub a b) = sval a - sval b"
    unfolding op_sub_sval [OF assms(1,2)] using assms(3) by (intro wrap_id) linarith+
  then show "op_lt a b \<longleftrightarrow> sval a < sval b"
    using assms by (simp add: op_lt_iff_sval_sub)
  show "sval (op_sub b a) = sval b - sval a"
    unfolding op_sub_sval [OF assms(2,1)] using assms(3) by (intro wrap_id) linarith+
qed

lemma sval_inj:
  assumes "length x = numDigits" "length y = numDigits" "sval x = sval y"
  shows "x = y"
proof (rule uval_inj)
  show "length x = length y"
    using assms by simp
  have "int (uval x) = int (uval y)"
    using assms by (simp add: uval_of_sval)
  then show "uval x = uval y"
    by simp
qed

lemma op_sub_swap:
  assumes "length a = numDigits" "length b = numDigits"
  shows "op_sub a b = op_neg (op_sub b a)"
proof (rule uval_inj)
  show "length (op_sub a b) = length (op_neg (op_sub b a))"
    using assms by simp
  have "int (uval (op_sub a b)) = (sval a - sval b) mod int modulus"
    using assms by (simp add: uval_of_sval op_sub_sval mod_simps)
  moreover have "int (uval (op_neg (op_sub b a))) = (sval a - sval b) mod int modulus"
  proof -
    have lt: "uval (op_sub b a) < modulus"
      using assms by (simp add: uval_lt_modulus)
    have "int (uval (op_neg (op_sub b a))) = (int modulus - int (uval (op_sub b a))) mod int modulus"
      using assms lt by (simp add: op_neg_uval zmod_int)
    also have "\<dots> = (- (sval (op_sub b a) mod int modulus)) mod int modulus"
      using assms by (simp add: sval_mod algebra_simps)
    also have "\<dots> = (- (sval b - sval a)) mod int modulus"
      using assms by (simp add: op_sub_sval mod_simps)
    finally show ?thesis by simp
  qed
  ultimately show "uval (op_sub a b) = uval (op_neg (op_sub b a))"
    by simp
qed

lemma op_neg_sval:
  assumes "length x = numDigits" "x \<noteq> getMinimum"
  shows "sval (op_neg x) = - sval x"
proof -
  have "sval x \<noteq> - int (modulus div 2)"
    using assms sval_inj [of x getMinimum] by (auto simp: getMinimum_sval)
  then have lo: "- int (modulus div 2) < sval x"
    using sval_lower [OF assms(1)] by linarith
  have up: "sval x < int (modulus div 2)"
    by (rule sval_upper [OF assms(1)])
  have lt: "uval x < modulus"
    using assms by (simp add: uval_lt_modulus)
  have "int (uval (op_neg x)) = (int modulus - int (uval x)) mod int modulus"
    using assms lt by (simp add: op_neg_uval zmod_int)
  also have "\<dots> = (- (sval x mod int modulus)) mod int modulus"
    using assms by (simp add: sval_mod algebra_simps)
  also have "\<dots> = (- sval x) mod int modulus"
    by (simp add: mod_simps)
  finally have "sval (op_neg x)
      = (- sval x + int (modulus div 2)) mod int modulus - int (modulus div 2)"
    using assms by (intro sval_eq_wrapI) simp_all
  also have "\<dots> = - sval x"
    using lo up by (intro wrap_id) linarith+
  finally show ?thesis .
qed

lemma op_lt_iff_positive_difference:
  assumes "length a = numDigits" "length b = numDigits" "op_sub b a \<noteq> getMinimum"
  shows "op_lt a b \<longleftrightarrow> 0 < sval (op_sub b a)"
proof -
  have "op_lt a b \<longleftrightarrow> sval (op_neg (op_sub b a)) < 0"
    using assms by (simp add: op_lt_iff_sval_sub op_sub_swap [of a b])
  also have "\<dots> \<longleftrightarrow> 0 < sval (op_sub b a)"
    using assms by (simp add: op_neg_sval)
  finally show ?thesis .
qed

section \<open>Addition, negation and comparison\<close>

text \<open>
  Claim C4. For all HugeInt values \<open>a\<close> and \<open>b\<close>, \<open>a + b\<close> represents
  \<open>value a + value b\<close> reduced modulo \<open>(2^32)^N\<close> into the representable range
  \<open>[-(2^32)^N/2, (2^32)^N/2 - 1]\<close>: the carry out of the top digit is dropped, and the
  result is always a HugeInt (the operator has no error outcome).
\<close>

theorem op_add_wraps:
  assumes "length a = numDigits" "length b = numDigits"
  shows "length (op_add a b) = numDigits \<and>
         uval (op_add a b) = (uval a + uval b) mod modulus \<and>
         sval (op_add a b)
           = (sval a + sval b + int (modulus div 2)) mod int modulus - int (modulus div 2) \<and>
         - int (modulus div 2) \<le> sval (op_add a b) \<and> sval (op_add a b) < int (modulus div 2)"
  using assms by (simp add: op_add_uval op_add_sval [symmetric] sval_lower sval_upper)

theorem op_add_wraps_witness:
  "length getMinimum = numDigits \<and>
   uval (op_add getMinimum getMinimum) = (uval getMinimum + uval getMinimum) mod modulus \<and>
   sval (op_add getMinimum getMinimum) = 0"
proof -
  have "int modulus = 2 * int (modulus div 2)"
    using modulus_even by linarith
  then have "(- int (modulus div 2) + - int (modulus div 2) + int (modulus div 2)) mod int modulus
        = int (modulus div 2)"
    using modulus_half_pos by (simp add: mod_pos_neg_trivial zmod_zminus1_eq_if)
  then show ?thesis
    using op_add_wraps [of getMinimum getMinimum] by (simp add: getMinimum_sval)
qed

text \<open>
  Claim C7. \<^verbatim>\<open>operator==\<close>, which tests whether \<open>rhs - lhs\<close> is zero, is true exactly
  when the two digit arrays agree at every index.
\<close>

theorem op_eq_structural:
  assumes "length a = numDigits" "length b = numDigits"
  shows "op_eq a b \<longleftrightarrow> (\<forall>i<numDigits. a ! i = b ! i)"
  using assms by (simp add: op_eq_iff list_eq_iff_nth_eq)

theorem op_eq_structural_witness:
  "length getMinimum = numDigits \<and> length HugeInt_default = numDigits \<and>
   (op_eq getMinimum HugeInt_default \<longleftrightarrow> (\<forall>i<numDigits. getMinimum ! i = HugeInt_default ! i)) \<and>
   \<not> op_eq getMinimum HugeInt_default"
proof -
  have "getMinimum ! (numDigits - 1) \<noteq> HugeInt_default ! (numDigits - 1)"
    by (simp add: getMinimum_def HugeInt_default_def base_def)
  then have "\<not> (\<forall>i<numDigits. getMinimum ! i = HugeInt_default ! i)"
    by (metis diff_less numDigits_pos zero_less_one)
  then show ?thesis
    using op_eq_structural [of getMinimum HugeInt_default] by simp
qed

text \<open>
  Claim C8. \<^verbatim>\<open>radixComplement\<close> applied twice gives back the value it started from, and
  it leaves zero unchanged.
\<close>

theorem radixComplement_involutive:
  "(length x = numDigits \<longrightarrow> radixComplement (radixComplement x) = x) \<and>
   radixComplement HugeInt_default = HugeInt_default"
proof -
  have "radixComplement HugeInt_default = HugeInt_default"
    by (simp add: radixComplement_def isZero_iff_default)
  then show ?thesis
    by (simp add: radixComplement_involution)
qed

theorem radixComplement_involutive_witness:
  "length getMinimum = numDigits \<and> radixComplement (radixComplement getMinimum) = getMinimum"
  using radixComplement_involutive [of getMinimum] by simp

text \<open>
  Claim C10. Unary minus maps the minimum representable value to itself:
  \<open>-getMinimum()\<close> has the digits of \<open>getMinimum()\<close>, and \<^verbatim>\<open>operator==\<close> says so.
\<close>

theorem op_neg_minimum: "op_neg getMinimum = getMinimum \<and> op_eq (op_neg getMinimum) getMinimum"
  by (simp add: op_neg_getMinimum op_eq_iff)

text \<open>
  Claim C6 as stated fails: the minimum value and zero are each below the other, and
  \<open>0 - getMinimum()\<close> is not strictly positive although \<open>getMinimum() < 0\<close> holds.
\<close>

theorem op_lt_counterexample:
  "op_lt getMinimum (HugeInt_ll 0) \<and> \<not> 0 < sval (op_sub (HugeInt_ll 0) getMinimum) \<and>
   op_lt (HugeInt_ll 0) getMinimum"
proof -
  have z: "HugeInt_ll 0 = HugeInt_default"
    by (simp add: HugeInt_ll_def)
  have zs: "sval HugeInt_default = 0"
    by (simp add: sval_alt)
  have m: "int modulus = 2 * int (modulus div 2)"
    using modulus_even by linarith
  have w: "(int (modulus div 2) + int (modulus div 2)) mod int modulus = 0"
    using m by simp
  have w': "(- int (modulus div 2) + int (modulus div 2)) mod int modulus = 0"
    by simp
  have "sval (op_sub HugeInt_default getMinimum) = - int (modulus div 2)"
    using w by (simp add: op_sub_sval zs getMinimum_sval)
  moreover have "sval (op_sub getMinimum HugeInt_default) = - int (modulus div 2)"
    using w' by (simp add: op_sub_sval zs getMinimum_sval)
  ultimately show ?thesis
    using modulus_half_pos by (simp add: z op_lt_iff_sval_sub)
qed

text \<open>
  Claim C6, amended. Whenever \<open>b - a\<close> is not the minimum value, \<open>a < b\<close> holds exactly
  when \<open>b - a\<close> is strictly positive. On any set of values whose pairwise differences are
  below \<open>(2^32)^N/2\<close> in magnitude, \<open>a < b\<close> is the order of the values, and so a strict
  weak order.
\<close>

theorem op_lt_order:
  assumes "\<forall>x\<in>S. length x = numDigits"
    and "\<forall>x\<in>S. \<forall>y\<in>S. \<bar>sval x - sval y\<bar> < int (modulus div 2)"
  shows "(\<forall>a b. length a = numDigits \<and> length b = numDigits \<and> op_sub b a \<noteq> getMinimum \<longrightarrow>
            (op_lt a b \<longleftrightarrow> 0 < sval (op_sub b a))) \<and>
         (\<forall>a\<in>S. \<forall>b\<in>S. (op_lt a b \<longleftrightarrow> 0 < sval (op_sub b a)) \<and>
                          (op_lt a b \<longleftrightarrow> sval a < sval b)) \<and>
         strict_weak_order_on S op_lt"
proof -
  have lt: "op_lt a b \<longleftrightarrow> sval a < sval b" and sub: "sval (op_sub b a) = sval b - sval a"
    if "a \<in> S" "b \<in> S" for a b
    using op_lt_near [of a b] assms that by blast+
  have "strict_weak_order_on S op_lt"
    unfolding strict_weak_order_on_def using lt by auto
  moreover have "\<forall>a\<in>S. \<forall>b\<in>S. (op_lt a b \<longleftrightarrow> 0 < sval (op_sub b a)) \<and>
                          (op_lt a b \<longleftrightarrow> sval a < sval b)"
    using lt sub by auto
  ultimately show ?thesis
    using op_lt_iff_positive_difference by blast
qed

theorem op_lt_order_witness:
  "length HugeInt_default = numDigits \<and> length (HugeInt_default[0 := 1]) = numDigits \<and>
   \<bar>sval HugeInt_default - sval (HugeInt_default[0 := 1])\<bar> < int (modulus div 2) \<and>
   op_lt HugeInt_default (HugeInt_default[0 := 1]) \<and>
   \<not> op_lt (HugeInt_default[0 := 1]) HugeInt_default \<and>
   strict_weak_order_on {HugeInt_default, HugeInt_default[0 := 1]} op_lt"
proof -
  let ?one = "HugeInt_default[0 := 1]"
  have u1: "uval ?one = 1"
    by (simp add: uval_update_default)
  have "radix \<le> radix ^ numDigits"
    by (rule self_le_power) (simp_all add: radix_def)
  moreover have "2 < radix"
    by (simp add: radix_def)
  ultimately have big: "2 < modulus"
    unfolding modulus_def by linarith
  then have h: "1 < modulus div 2"
    using modulus_even by linarith
  have s0: "sval HugeInt_default = 0"
    by (simp add: sval_alt)
  have s1: "sval ?one = 1"
    using big by (simp add: sval_alt u1)
  have len: "\<forall>x\<in>{HugeInt_default, ?one}. length x = numDigits"
    by simp
  have near: "\<forall>x\<in>{HugeInt_default, ?one}. \<forall>y\<in>{HugeInt_default, ?one}.
                \<bar>sval x - sval y\<bar> < int (modulus div 2)"
    using h by (simp add: s0 s1)
  from op_lt_order [OF len near]
  have ord: "\<forall>a\<in>{HugeInt_default, ?one}. \<forall>b\<in>{HugeInt_default, ?one}.
               (op_lt a b \<longleftrightarrow> 0 < sval (op_sub b a)) \<and> (op_lt a b \<longleftrightarrow> sval a < sval b)"
    and swo: "strict_weak_order_on {HugeInt_default, ?one} op_lt"
    by blast+
  from ord have "op_lt HugeInt_default ?one \<longleftrightarrow> sval HugeInt_default < sval ?one"
    and "op_lt ?one HugeInt_default \<longleftrightarrow> sval ?one < sval HugeInt_default"
    by blast+
  then have "op_lt HugeInt_default ?one" "\<not> op_lt ?one HugeInt_default"
    by (simp_all add: s0 s1)
  with swo h show ?thesis
    by (simp add: s0 s1)
qed

subsection \<open>Digit updates\<close>

lemma sig_digits_eqI:
  assumes "n \<le> k" "0 < n \<Longrightarrow> x ! (n - 1) \<noteq> 0" "\<And>i. n \<le> i \<Longrightarrow> i < k \<Longrightarrow> x ! i = 0"
  shows "sig_digits k x = n"
  using assms
proof (induction k)
  case 0
  then show ?case by simp
next
  case (Suc k)
  show ?case
  proof (cases "n = Suc k")
    case True
    with Suc.prems(2) show ?thesis by simp
  next
    case False
    with Suc.prems(1) have "n \<le> k" by simp
    moreover have "x ! k = 0"
      using Suc.prems(3) [of k] \<open>n \<le> k\<close> by simp
    ultimately show ?thesis
      using Suc by simp
  qed
qed

lemma uval_update:
  assumes "i < length xs"
  shows "uval (xs[i := v]) + unat (xs ! i) * radix ^ i = uval xs + unat v * radix ^ i"
proof -
  have xs: "xs = take i xs @ xs ! i # drop (Suc i) xs"
    using assms by (simp add: id_take_nth_drop [symmetric])
  have upd: "xs[i := v] = take i xs @ v # drop (Suc i) xs"
    using assms by (simp add: upd_conv_take_nth_drop)
  have app: "uval (ys @ d # zs) = uval ys + unat d * radix ^ length ys
               + radix ^ Suc (length ys) * uval zs" for ys zs and d :: uint32
  proof (induction zs rule: rev_induct)
    case Nil
    then show ?case by (simp add: uval_snoc)
  next
    case (snoc z zs)
    have "uval (ys @ d # zs @ [z]) = uval ((ys @ d # zs) @ [z])"
      by simp
    also have "\<dots> = uval (ys @ d # zs) + unat z * radix ^ length (ys @ d # zs)"
      by (rule uval_snoc)
    finally show ?case
      by (simp add: snoc uval_snoc algebra_simps power_add)
  qed
  have "uval (xs[i := v]) + unat (xs ! i) * radix ^ i
        = uval (take i xs @ v # drop (Suc i) xs) + unat (xs ! i) * radix ^ i"
    using upd by simp
  also have "\<dots> = uval (take i xs @ xs ! i # drop (Suc i) xs) + unat v * radix ^ i"
    using assms by (simp add: app)
  also have "\<dots> = uval xs + unat v * radix ^ i"
    using xs by simp
  finally show ?thesis .
qed

lemma uval_update_zero:
  "i < length xs \<Longrightarrow> xs ! i = 0 \<Longrightarrow> uval (xs[i := v]) = uval xs + unat v * radix ^ i"
  using uval_update [of i xs v] by simp

section \<open>Short multiplication, short division and the string constructor\<close>

subsection \<open>shortMultiply\<close>

lemma digit_mult_bound:
  assumes "p < radix" "x < radix" "m < radix"
  shows "p + x * m < radix * radix"
proof -
  have "x * m \<le> (radix - 1) * (radix - 1)"
    using assms by (intro mult_mono) simp_all
  moreover have "(radix - 1) + (radix - 1) * (radix - 1) < radix * radix"
    by (simp add: radix_def)
  ultimately show ?thesis
    using assms(1) by linarith
qed

lemma shortMultiply_loop:
  assumes "length t0 = numDigits" "length x = numDigits"
    and "k \<le> numDigits" "fold (shortMultiply_step x m) [0..<k] (0, t0) = (p, t)"
  shows "length t = numDigits \<and> unat p < radix \<and>
         uval (take k t) + unat p * radix ^ k = uval (take k x) * unat m"
  using assms(3,4)
proof (induction k arbitrary: p t)
  case 0
  then show ?case using assms(1) by auto
next
  case (Suc k)
  obtain p' t' where pt: "fold (shortMultiply_step x m) [0..<k] (0, t0) = (p', t')"
    by (cases "fold (shortMultiply_step x m) [0..<k] (0, t0)")
  from Suc.IH [OF _ pt] Suc.prems(1) have len: "length t' = numDigits" and p1: "unat p' < radix"
    and inv: "uval (take k t') + unat p' * radix ^ k = uval (take k x) * unat m"
    by simp_all
  let ?c = "unat p' + unat (x ! k) * unat m"
  let ?w = "p' + ucast (x ! k) * ucast m :: uint64"
  have bnd: "?c < radix * radix"
    using p1 unat32_lt [of "x ! k"] unat32_lt [of m] by (rule digit_mult_bound)
  have "unat (ucast (x ! k) * ucast m :: uint64) = unat (x ! k) * unat m"
    using bnd by (intro unat_mult64) simp_all
  with bnd have w: "unat ?w = ?c"
    by (intro unat_add64) simp_all
  have c1: "?c div radix < radix"
    using bnd by (simp add: less_mult_imp_div_less)
  have kl: "k < length t'" "k < numDigits"
    using Suc.prems len by simp_all
  have "fold (shortMultiply_step x m) [0..<Suc k] (0, t0) = (drop_bit 32 ?w, t'[k := ucast ?w])"
    by (simp add: pt shortMultiply_step_def Let_def)
  with Suc.prems(2) have p: "p = drop_bit 32 ?w" and t: "t = t'[k := ucast ?w]"
    by simp_all
  have "uval (take (Suc k) t) + unat p * radix ^ Suc k = uval (take k t') + ?c * radix ^ k"
    using kl by (simp add: p t uval_take_Suc_update unat_down unat_drop32 w split_digit)
  also have "\<dots> = uval (take (Suc k) x) * unat m"
    using kl assms(2) inv by (simp add: uval_take_Suc algebra_simps)
  finally show ?case
    using len c1 by (simp add: p t unat_drop32 w)
qed

lemma shortMultiply_length [simp]:
  assumes "length x = numDigits"
  shows "length (shortMultiply x m) = numDigits"
proof -
  obtain p t where pt: "fold (shortMultiply_step x m) [0..<numDigits] (0, HugeInt_default) = (p, t)"
    by (cases "fold (shortMultiply_step x m) [0..<numDigits] (0, HugeInt_default)")
  from shortMultiply_loop [OF HugeInt_default_length assms le_refl pt] show ?thesis
    by (simp add: shortMultiply_def pt)
qed

lemma shortMultiply_uval:
  assumes "length x = numDigits"
  shows "uval (shortMultiply x m) = (uval x * unat m) mod modulus"
proof -
  obtain p t where pt: "fold (shortMultiply_step x m) [0..<numDigits] (0, HugeInt_default) = (p, t)"
    by (cases "fold (shortMultiply_step x m) [0..<numDigits] (0, HugeInt_default)")
  from shortMultiply_loop [OF HugeInt_default_length assms le_refl pt]
  have len: "length t = numDigits"
    and "uval (take numDigits t) + unat p * radix ^ numDigits = uval (take numDigits x) * unat m"
    by blast+
  then have eq: "uval t + unat p * modulus = uval x * unat m"
    using assms by (simp add: modulus_def)
  have "(uval t + unat p * modulus) mod modulus = uval t"
    using uval_lt_modulus [OF len] by simp
  with eq show ?thesis
    by (simp add: shortMultiply_def pt)
qed

subsection \<open>shortDivide\<close>

lemma uval_Cons: "uval (d # ds) = unat d + radix * uval ds"
proof -
  have "uval (d # ds) = (\<Sum>i<Suc (length ds). unat ((d # ds) ! i) * radix ^ i)"
    by (simp add: uval_def del: sum.lessThan_Suc)
  also have "\<dots> = unat ((d # ds) ! 0) * radix ^ 0
                 + (\<Sum>i<length ds. unat ((d # ds) ! Suc i) * radix ^ Suc i)"
    by (rule sum.lessThan_Suc_shift)
  also have "\<dots> = unat d + (\<Sum>i<length ds. unat (ds ! i) * radix ^ Suc i)"
    by simp
  also have "(\<Sum>i<length ds. unat (ds ! i) * radix ^ Suc i) = radix * uval ds"
    by (simp add: uval_def sum_distrib_left algebra_simps)
  finally show ?thesis .
qed

lemma uval_drop_step:
  assumes "j < length xs"
  shows "uval (drop j xs) = unat (xs ! j) + radix * uval (drop (Suc j) xs)"
proof -
  have "drop j xs = xs ! j # drop (Suc j) xs"
    using assms by (simp add: Cons_nth_drop_Suc)
  then show ?thesis
    by (simp add: uval_Cons)
qed

lemma uval_drop_update:
  assumes "j < length xs"
  shows "uval (drop j (xs[j := v])) = unat v + radix * uval (drop (Suc j) xs)"
  using assms uval_drop_step [of j "xs[j := v]"] by simp

lemma fold_rev_upt_Suc:
  "j < n \<Longrightarrow> fold f (rev [j..<n]) s = f j (fold f (rev [Suc j..<n]) s)"
  by (simp add: upt_conv_Cons)

lemma short_division_digit:
  fixes p d x :: nat
  assumes "p < d" "d < radix" "x < radix"
  shows "radix * p + x < radix * radix" "(radix * p + x) div d < radix"
proof -
  have "radix * p + x < radix * (p + 1)"
    using assms by simp
  also have "\<dots> \<le> radix * d"
    using assms(1) by (intro mult_le_mono2) simp
  finally have lt: "radix * p + x < radix * d" .
  also have "\<dots> < radix * radix"
    using assms(2) by simp
  finally show "radix * p + x < radix * radix" .
  from lt show "(radix * p + x) div d < radix"
    using assms(1) by (simp add: less_mult_imp_div_less mult.commute)
qed

lemma shortDivide_loop:
  assumes "length q0 = numDigits" "length x = numDigits" "d \<noteq> 0"
    and "j \<le> numDigits"
    and "fold (shortDivide_step x d) (rev [j..<numDigits]) (0, q0) = (p, q)"
  shows "length q = numDigits \<and> unat p < unat d \<and>
         uval (drop j x) = uval (drop j q) * unat d + unat p"
  using assms(4,5)
proof (induction "numDigits - j" arbitrary: j p q)
  case 0
  then have "j = numDigits" by simp
  with 0 assms(1,2,3) show ?case
    by (auto simp: unat_gt_0)
next
  case (Suc n)
  then have jl: "j < numDigits" by simp
  obtain p' q' where pt: "fold (shortDivide_step x d) (rev [Suc j..<numDigits]) (0, q0) = (p', q')"
    by (cases "fold (shortDivide_step x d) (rev [Suc j..<numDigits]) (0, q0)")
  have "n = numDigits - Suc j"
    using Suc.hyps(2) by simp
  from Suc.hyps(1) [OF this _ pt] jl
  have len: "length q' = numDigits" and p1: "unat p' < unat d"
    and inv: "uval (drop (Suc j) x) = uval (drop (Suc j) q') * unat d + unat p'"
    by simp_all
  let ?c = "radix * unat p' + unat (x ! j)"
  let ?w = "base * p' + ucast (x ! j) :: uint64"
  have dl: "unat d < radix" and xl: "unat (x ! j) < radix"
    by (rule unat32_lt)+
  have bnd: "?c < radix * radix" and ql: "?c div unat d < radix"
    using short_division_digit [OF p1 dl xl] by simp_all
  have "radix * unat p' < radix * radix"
    using p1 dl by simp
  then have "unat (base * p') = radix * unat p'"
    by (intro unat_mult64) simp_all
  with bnd have w: "unat ?w = ?c"
    by (intro unat_add64) simp_all
  have step: "fold (shortDivide_step x d) (rev [j..<numDigits]) (0, q0)
        = (?w mod ucast d, q'[j := ucast (?w div ucast d)])"
    using jl by (simp add: fold_rev_upt_Suc pt shortDivide_step_def Let_def)
  with Suc.prems(2) have p: "p = ?w mod ucast d" and q: "q = q'[j := ucast (?w div ucast d)]"
    by simp_all
  have up: "unat p = ?c mod unat d"
    by (simp add: p unat_mod w)
  have uq: "unat (ucast (?w div ucast d) :: uint32) = ?c div unat d"
    using ql by (simp add: unat_down unat_div w)
  have dpos: "0 < unat d"
    using assms(3) by (simp add: unat_gt_0)
  have "uval (drop j x) = unat (x ! j) + radix * uval (drop (Suc j) x)"
    using jl assms(2) by (simp add: uval_drop_step)
  also have "\<dots> = ?c + radix * (uval (drop (Suc j) q') * unat d)"
    by (simp add: inv algebra_simps)
  also have "?c = ?c div unat d * unat d + ?c mod unat d"
    by simp
  also have "?c div unat d * unat d + ?c mod unat d + radix * (uval (drop (Suc j) q') * unat d)
        = (?c div unat d + radix * uval (drop (Suc j) q')) * unat d + ?c mod unat d"
    by (simp add: algebra_simps)
  also have "?c div unat d + radix * uval (drop (Suc j) q') = uval (drop j q)"
    using jl len by (simp add: q uval_drop_update uq)
  finally have "uval (drop j x) = uval (drop j q) * unat d + unat p"
    by (simp add: up)
  then show ?case
    using len dpos by (simp add: q up)
qed

lemma shortDivide_correct:
  assumes "length x = numDigits" "d \<noteq> 0"
  shows "\<exists>q r. shortDivide x d = Inr (q, r) \<and> length q = numDigits \<and>
           uval q = uval x div unat d \<and> unat r = uval x mod unat d"
proof -
  obtain p q where pt:
    "fold (shortDivide_step x d) (rev [0..<numDigits]) (0, HugeInt_default) = (p, q)"
    by (cases "fold (shortDivide_step x d) (rev [0..<numDigits]) (0, HugeInt_default)")
  from shortDivide_loop [OF HugeInt_default_length assms le0 pt]
  have len: "length q = numDigits" and pl: "unat p < unat d"
    and eq: "uval x = uval q * unat d + unat p"
    by simp_all
  have "unat p < radix"
    using pl unat32_lt [of d] by simp
  then have r: "unat (ucast p :: uint32) = unat p"
    by (simp add: unat_down)
  have "uval x div unat d = uval q" "uval x mod unat d = unat p"
    using pl by (simp_all add: eq)
  with len r show ?thesis
    using assms(2) by (simp add: shortDivide_def pt)
qed


subsection \<open>HugeInt(long long) at 0 and 1\<close>

lemma HugeInt_ll_0: "HugeInt_ll 0 = HugeInt_default"
  by (simp add: HugeInt_ll_def)

lemma HugeInt_ll_1: "HugeInt_ll 1 = HugeInt_default[0 := 1]"
proof -
  have "ll_digits 1 0 HugeInt_default = ll_digits 0 (Suc 0) (HugeInt_default[0 := 1])"
    by (subst ll_digits.simps) (simp add: base_def word_sless_alt)
  also have "\<dots> = HugeInt_default[0 := 1]"
    by (subst ll_digits.simps) simp
  finally show ?thesis
    by (simp add: HugeInt_ll_def word_sless_alt)
qed

lemma HugeInt_ll_1_length [simp]: "length (HugeInt_ll 1) = numDigits"
  by (simp add: HugeInt_ll_1)

lemma HugeInt_ll_1_uval: "uval (HugeInt_ll 1) = 1"
  by (simp add: HugeInt_ll_1 uval_update_default)

subsection \<open>Decimal digits\<close>

lemma unat_of_char: "unat (of_char c :: uint32) = of_char c"
proof -
  have "(of_char c :: uint32) = word_of_nat (of_char c)"
    by (simp add: of_nat_of_char)
  moreover have "(of_char c :: nat) < 2 ^ 32"
    by (rule less_le_trans [OF nat_of_char_less_256]) simp
  ultimately show ?thesis
    by (simp add: unat_of_nat)
qed

lemma digitValue_unat:
  assumes "isdigit c"
  shows "unat ((of_char c :: uint32) - 48) = digit_val c" and "digit_val c < 10"
proof -
  have "unat (48 :: uint32) \<le> unat (of_char c :: uint32)"
    using assms by (simp add: unat_of_char isdigit_def)
  then have "(48 :: uint32) \<le> of_char c"
    by (simp add: word_le_nat_alt)
  then show "unat ((of_char c :: uint32) - 48) = digit_val c"
    by (simp add: unat_sub unat_of_char digit_val_def)
  show "digit_val c < 10"
    using assms unfolding digit_val_def isdigit_def by linarith
qed

lemma dec_value_Nil [simp]: "dec_value [] = 0"
  by (simp add: dec_value_def)

lemma dec_value_snoc: "dec_value (s @ [c]) = 10 * dec_value s + digit_val c"
  by (simp add: dec_value_def)

lemma lsd_sum_Suc: "lsd_sum s (Suc k) = lsd_sum s k + digit_val (s ! (length s - 1 - k)) * 10 ^ k"
  by (simp add: lsd_sum_def)

lemma lsd_sum_append:
  assumes "k \<le> length t"
  shows "lsd_sum (s @ t) k = lsd_sum t k"
  unfolding lsd_sum_def
proof (rule sum.cong)
  fix i assume "i \<in> {..<k}"
  then have "i < length t"
    using assms by simp
  then have "length (s @ t) - 1 - i = length s + (length t - 1 - i)"
    by simp
  then have "(s @ t) ! (length (s @ t) - 1 - i) = t ! (length t - 1 - i)"
    by (simp only: nth_append_length_plus)
  then show "digit_val ((s @ t) ! (length (s @ t) - 1 - i)) * 10 ^ i
             = digit_val (t ! (length t - 1 - i)) * 10 ^ i"
    by simp
qed simp

lemma dec_value_lsd_sum: "dec_value s = lsd_sum s (length s)"
proof (induction s rule: rev_induct)
  case Nil
  show ?case by (simp add: lsd_sum_def)
next
  case (snoc c s)
  have "lsd_sum (s @ [c]) (Suc (length s))
        = digit_val ((s @ [c]) ! (length s - 0)) * 10 ^ 0
          + (\<Sum>i<length s. digit_val ((s @ [c]) ! (length s - Suc i)) * 10 ^ Suc i)"
    unfolding lsd_sum_def by (subst sum.lessThan_Suc_shift) simp
  also have "(\<Sum>i<length s. digit_val ((s @ [c]) ! (length s - Suc i)) * 10 ^ Suc i)
             = (\<Sum>i<length s. 10 * (digit_val (s ! (length s - 1 - i)) * 10 ^ i))"
  proof (rule sum.cong)
    fix i assume "i \<in> {..<length s}"
    then have "length s - Suc i < length s"
      by simp
    then have "(s @ [c]) ! (length s - Suc i) = s ! (length s - 1 - i)"
      by (simp add: nth_append)
    then show "digit_val ((s @ [c]) ! (length s - Suc i)) * 10 ^ Suc i
               = 10 * (digit_val (s ! (length s - 1 - i)) * 10 ^ i)"
      by simp
  qed simp
  also have "\<dots> = 10 * lsd_sum s (length s)"
    by (simp add: lsd_sum_def sum_distrib_left)
  finally show ?case
    by (simp add: dec_value_snoc snoc)
qed

subsection \<open>The string constructor\<close>

lemma parse_loop:
  assumes "k \<le> length str" "\<forall>i<k. isdigit (str ! (length str - 1 - i))"
    and "fold (parse_step str) [0..<k] (HugeInt_default, HugeInt_ll 1) = (num, pw)"
  shows "length num = numDigits \<and> length pw = numDigits \<and>
         uval pw = 10 ^ k mod modulus \<and> uval num = lsd_sum str k mod modulus"
  using assms
proof (induction k arbitrary: num pw)
  case 0
  have "1 < modulus"
    unfolding modulus_def by (rule one_less_power [OF radix_gt1 numDigits_pos])
  with 0 show ?case
    by (auto simp: HugeInt_ll_1_uval lsd_sum_def)
next
  case (Suc k)
  obtain num' pw' where st: "fold (parse_step str) [0..<k] (HugeInt_default, HugeInt_ll 1) = (num', pw')"
    by (cases "fold (parse_step str) [0..<k] (HugeInt_default, HugeInt_ll 1)")
  from Suc.IH [OF _ _ st] Suc.prems(1,2)
  have len: "length num' = numDigits" "length pw' = numDigits"
    and pw: "uval pw' = 10 ^ k mod modulus" and num: "uval num' = lsd_sum str k mod modulus"
    by simp_all
  let ?c = "str ! (length str - 1 - k)"
  have dig: "isdigit ?c"
    using Suc.prems(2) by simp
  have step: "fold (parse_step str) [0..<Suc k] (HugeInt_default, HugeInt_ll 1)
      = (op_add num' (shortMultiply pw' (of_char ?c - 48)), shortMultiply pw' 10)"
    by (simp add: st parse_step_def Let_def)
  with Suc.prems(3) have n: "num = op_add num' (shortMultiply pw' (of_char ?c - 48))"
    and p: "pw = shortMultiply pw' 10"
    by simp_all
  have "uval pw = (10 ^ k mod modulus * 10) mod modulus"
    using len by (simp add: p shortMultiply_uval pw)
  also have "\<dots> = 10 ^ Suc k mod modulus"
    by (simp add: mod_simps mult.commute)
  finally have pw_new: "uval pw = 10 ^ Suc k mod modulus" .
  have "uval num = (lsd_sum str k mod modulus + (10 ^ k mod modulus * digit_val ?c) mod modulus) mod modulus"
    using len digitValue_unat(1) [OF dig] by (simp add: n op_add_uval shortMultiply_uval pw num)
  also have "\<dots> = lsd_sum str (Suc k) mod modulus"
    by (simp add: mod_simps lsd_sum_Suc mult.commute)
  finally show ?case
    using len pw_new by (simp add: n p)
qed


lemma parse_digits:
  assumes "n \<le> length str" "list_all isdigit (drop (length str - n) str)"
    and "fold (parse_step str) [0..<n] (HugeInt_default, HugeInt_ll 1) = (num, pw)"
  shows "length num = numDigits" "uval num = dec_value (drop (length str - n) str) mod modulus"
proof -
  let ?d = "drop (length str - n) str"
  have ld: "length ?d = n"
    using assms(1) by simp
  have split: "str = take (length str - n) str @ ?d"
    by simp
  have dig: "\<forall>i<n. isdigit (str ! (length str - 1 - i))"
  proof (intro allI impI)
    fix i assume "i < n"
    then have idx: "length str - n + (n - 1 - i) = length str - 1 - i"
      using assms(1) by simp
    have "?d ! (n - 1 - i) = str ! (length str - n + (n - 1 - i))"
      using assms(1) \<open>i < n\<close> by (intro nth_drop) simp
    then have "str ! (length str - 1 - i) = ?d ! (n - 1 - i)"
      by (simp only: idx)
    moreover have "isdigit (?d ! (n - 1 - i))"
    proof -
      have all: "\<forall>j<length ?d. isdigit (?d ! j)"
        using assms(2) unfolding list_all_length .
      have "n - 1 - i < length ?d"
        using ld \<open>i < n\<close> by linarith
      with all show ?thesis
        by blast
    qed
    ultimately show "isdigit (str ! (length str - 1 - i))"
      by simp
  qed
  from parse_loop [OF assms(1) dig assms(3)]
  have len: "length num = numDigits" and val: "uval num = lsd_sum str n mod modulus"
    by simp_all
  show "length num = numDigits"
    by (rule len)
  have "lsd_sum str n = lsd_sum (take (length str - n) str @ ?d) n"
    by simp
  also have "\<dots> = lsd_sum ?d n"
    using ld by (intro lsd_sum_append) simp
  also have "\<dots> = dec_value ?d"
    using ld by (simp add: dec_value_lsd_sum)
  finally show "uval num = dec_value ?d mod modulus"
    using val by simp
qed

lemma isdigit_not_sign: "isdigit c \<Longrightarrow> c \<noteq> CHR ''+'' \<and> c \<noteq> CHR ''-''"
  by (auto simp: isdigit_def)

lemma HugeInt_str_unsigned:
  assumes "s \<noteq> []" "list_all isdigit s"
  shows "\<exists>x. HugeInt_str s = Inr x \<and> length x = numDigits \<and> uval x = dec_value s mod modulus"
proof -
  obtain num pw where st:
    "fold (parse_step s) [0..<length s] (HugeInt_default, HugeInt_ll 1) = (num, pw)"
    by (cases "fold (parse_step s) [0..<length s] (HugeInt_default, HugeInt_ll 1)")
  have "isdigit (s ! 0)"
    using assms by (simp add: list_all_length)
  then have ns: "s ! 0 \<noteq> CHR ''+''" "s ! 0 \<noteq> CHR ''-''"
    using isdigit_not_sign by blast+
  have "HugeInt_str s = Inr num"
    using assms ns by (simp add: HugeInt_str_def is_all_digits_def st)
  moreover have "length num = numDigits" "uval num = dec_value s mod modulus"
    using parse_digits [OF le_refl _ st] assms(2) by simp_all
  ultimately show ?thesis
    by simp
qed

lemma HugeInt_str_plus:
  assumes "cs \<noteq> []" "list_all isdigit cs"
  shows "\<exists>x. HugeInt_str (CHR ''+'' # cs) = Inr x \<and> length x = numDigits \<and>
           uval x = dec_value cs mod modulus"
proof -
  let ?s = "CHR ''+'' # cs"
  obtain num pw where st:
    "fold (parse_step ?s) [0..<length cs] (HugeInt_default, HugeInt_ll 1) = (num, pw)"
    by (cases "fold (parse_step ?s) [0..<length cs] (HugeInt_default, HugeInt_ll 1)")
  have "HugeInt_str ?s = Inr num"
    using assms by (simp add: HugeInt_str_def is_all_digits_def st)
  moreover have "length num = numDigits" "uval num = dec_value cs mod modulus"
    using parse_digits [of "length cs" ?s num pw] st assms(2) by simp_all
  ultimately show ?thesis
    by simp
qed

lemma HugeInt_str_minus:
  assumes "cs \<noteq> []" "list_all isdigit cs"
  shows "\<exists>x. HugeInt_str (CHR ''-'' # cs) = Inr x \<and> length x = numDigits \<and>
           uval x = (modulus - dec_value cs mod modulus) mod modulus"
proof -
  let ?s = "CHR ''-'' # cs"
  obtain num pw where st:
    "fold (parse_step ?s) [0..<length cs] (HugeInt_default, HugeInt_ll 1) = (num, pw)"
    by (cases "fold (parse_step ?s) [0..<length cs] (HugeInt_default, HugeInt_ll 1)")
  have "HugeInt_str ?s = Inr (radixComplement num)"
    using assms by (simp add: HugeInt_str_def is_all_digits_def st)
  moreover have "length num = numDigits" "uval num = dec_value cs mod modulus"
    using parse_digits [of "length cs" ?s num pw] st assms(2) by simp_all
  ultimately show ?thesis
    by (simp add: radixComplement_uval)
qed

lemma HugeInt_str_not_well_formed:
  assumes "\<not> well_formed s"
  shows "\<exists>msg. HugeInt_str s = Inl (InvalidArgument msg)"
proof (cases s)
  case Nil
  then show ?thesis
    by (simp add: HugeInt_str_def)
next
  case (Cons c cs)
  with assms show ?thesis
    by (auto simp: HugeInt_str_def well_formed_def is_all_digits_def split: if_splits prod.splits)
qed

lemma HugeInt_str_well_formed:
  assumes "well_formed s"
  shows "\<exists>x. HugeInt_str s = Inr x \<and> length x = numDigits \<and>
           int (uval x) = denoted s mod int modulus"
proof (cases s)
  case Nil
  with assms show ?thesis
    by (simp add: well_formed_def)
next
  case (Cons c cs)
  consider (plus) "c = CHR ''+''" | (minus) "c = CHR ''-''" | (none) "c \<noteq> CHR ''+''" "c \<noteq> CHR ''-''"
    by blast
  then show ?thesis
  proof cases
    case plus
    with assms Cons have "cs \<noteq> []" "list_all isdigit cs"
      by (simp_all add: well_formed_def)
    from HugeInt_str_plus [OF this] show ?thesis
      using Cons plus by (auto simp: denoted_def zmod_int)
  next
    case minus
    with assms Cons have cs: "cs \<noteq> []" "list_all isdigit cs"
      by (simp_all add: well_formed_def)
    from HugeInt_str_minus [OF this] obtain x where x: "HugeInt_str (CHR ''-'' # cs) = Inr x"
      "length x = numDigits" "uval x = (modulus - dec_value cs mod modulus) mod modulus"
      by blast
    have "int (uval x) = (int modulus - int (dec_value cs) mod int modulus) mod int modulus"
      by (simp add: x(3) zmod_int of_nat_diff)
    also have "\<dots> = (- int (dec_value cs)) mod int modulus"
      by (simp add: mod_simps)
    finally show ?thesis
      using Cons minus x by (simp add: denoted_def)
  next
    case none
    with assms Cons have "s \<noteq> []" "list_all isdigit s"
      by (simp_all add: well_formed_def)
    from HugeInt_str_unsigned [OF this] show ?thesis
      using Cons none by (auto simp: denoted_def zmod_int)
  qed
qed

lemma halfradix_le_half_modulus: "halfradix \<le> modulus div 2"
proof -
  have "0 < radix ^ (numDigits - 1)"
    by simp
  then have "halfradix * 1 \<le> halfradix * radix ^ (numDigits - 1)"
    by (intro mult_le_mono2) linarith
  then show ?thesis
    by (simp add: modulus_div_2)
qed

lemma sval_of_uval_mod:
  assumes "length x = numDigits" "int (uval x) = v mod int modulus"
    and "- int (modulus div 2) \<le> v" "v < int (modulus div 2)"
  shows "sval x = v"
  using sval_eq_wrapI [OF assms(1,2)] wrap_id [OF assms(3,4)] by simp

text \<open>
  Claim C5, amended. The string constructor fails with \<^verbatim>\<open>std::invalid_argument\<close> exactly on
  the strings that are not an optional single leading \<open>+\<close> or \<open>-\<close> followed by one or more
  decimal digits, among them the empty string, \<open>12a3\<close> and \<open>--5\<close>. On every other string
  it succeeds, with the denoted value reduced modulo \<open>(2^32)^N\<close> into the representable
  range, which is the denoted value itself when that is in range.
\<close>

theorem HugeInt_str_format:
  "(well_formed s \<longrightarrow>
      (\<exists>x. HugeInt_str s = Inr x \<and> length x = numDigits \<and>
           sval x = (denoted s + int (modulus div 2)) mod int modulus - int (modulus div 2) \<and>
           (- int (modulus div 2) \<le> denoted s \<and> denoted s < int (modulus div 2)
              \<longrightarrow> sval x = denoted s))) \<and>
   (\<not> well_formed s \<longrightarrow> (\<exists>msg. HugeInt_str s = Inl (InvalidArgument msg))) \<and>
   HugeInt_str [] = Inl (InvalidArgument ''empty decimal string in constructor.'') \<and>
   HugeInt_str ''12a3'' = Inl (InvalidArgument ''string contains non-digit in constructor.'') \<and>
   HugeInt_str ''--5'' = Inl (InvalidArgument ''string contains non-digit in constructor.'')"
proof (intro conjI impI)
  assume "well_formed s"
  from HugeInt_str_well_formed [OF this] obtain x where x: "HugeInt_str s = Inr x"
    "length x = numDigits" "int (uval x) = denoted s mod int modulus"
    by blast
  have "sval x = (denoted s + int (modulus div 2)) mod int modulus - int (modulus div 2)"
    by (rule sval_eq_wrapI [OF x(2,3)])
  moreover have "sval x = denoted s"
    if "- int (modulus div 2) \<le> denoted s \<and> denoted s < int (modulus div 2)"
    using that sval_of_uval_mod [OF x(2,3)] by simp
  ultimately show "\<exists>x. HugeInt_str s = Inr x \<and> length x = numDigits \<and>
           sval x = (denoted s + int (modulus div 2)) mod int modulus - int (modulus div 2) \<and>
           (- int (modulus div 2) \<le> denoted s \<and> denoted s < int (modulus div 2)
              \<longrightarrow> sval x = denoted s)"
    using x by blast
next
  assume "\<not> well_formed s"
  then show "\<exists>msg. HugeInt_str s = Inl (InvalidArgument msg)"
    by (rule HugeInt_str_not_well_formed)
next
  show "HugeInt_str [] = Inl (InvalidArgument ''empty decimal string in constructor.'')"
    by (simp add: HugeInt_str_def)
  show "HugeInt_str ''12a3'' = Inl (InvalidArgument ''string contains non-digit in constructor.'')"
    by (simp add: HugeInt_str_def is_all_digits_def isdigit_def)
  show "HugeInt_str ''--5'' = Inl (InvalidArgument ''string contains non-digit in constructor.'')"
    by (simp add: HugeInt_str_def is_all_digits_def isdigit_def)
qed

theorem HugeInt_str_format_witness:
  "well_formed ''-100'' \<and> denoted ''-100'' = - 100 \<and>
   (\<exists>x. HugeInt_str ''-100'' = Inr x \<and> length x = numDigits \<and> sval x = - 100) \<and>
   \<not> well_formed ''12a3'' \<and> (\<exists>msg. HugeInt_str ''12a3'' = Inl (InvalidArgument msg))"
proof -
  have wf: "well_formed ''-100''" and nwf: "\<not> well_formed ''12a3''"
    by (simp_all add: well_formed_def isdigit_def)
  have den: "denoted ''-100'' = - 100"
    by (simp add: denoted_def dec_value_def digit_val_def)
  have "(100 :: nat) < halfradix"
    by (simp add: halfradix_def)
  then have "(100 :: nat) < modulus div 2"
    using halfradix_le_half_modulus by linarith
  then have rng: "- int (modulus div 2) \<le> - 100 \<and> - 100 < int (modulus div 2)"
    by linarith
  from HugeInt_str_format [of "''-100''"] wf den rng nwf HugeInt_str_format [of "''12a3''"]
  show ?thesis
    by auto
qed

lemma dec_value_append_zeros: "dec_value (s @ replicate n CHR ''0'') = dec_value s * 10 ^ n"
proof (induction n)
  case 0
  show ?case by simp
next
  case (Suc n)
  have "s @ replicate (Suc n) CHR ''0'' = (s @ replicate n CHR ''0'') @ [CHR ''0'']"
    by (simp add: replicate_append_same)
  then show ?case
    by (simp only: dec_value_snoc Suc) (simp add: digit_val_def)
qed

lemma modulus_lt_10_pow: "int modulus < 10 ^ (10 * numDigits)"
proof -
  have "radix < 10 ^ 10"
    by (simp add: radix_def)
  then have "radix ^ numDigits < (10 ^ 10) ^ numDigits"
    by (intro power_strict_mono) simp_all
  also have "\<dots> = 10 ^ (10 * numDigits)"
    by (rule power_mult [symmetric])
  finally have "modulus < 10 ^ (10 * numDigits)"
    by (simp only: modulus_def)
  then have "int modulus < int (10 ^ (10 * numDigits))"
    by (simp only: of_nat_less_iff)
  then show ?thesis
    by (simp only: of_nat_power of_nat_numeral)
qed

text \<open>
  Claim C5 as stated fails: the string of a 1 followed by 3000 zeros matches the format, and
  the constructor succeeds on it, but the object does not hold the denoted value \<open>10^3000\<close>.
\<close>

theorem HugeInt_str_counterexample:
  "well_formed (CHR ''1'' # replicate (10 * numDigits) CHR ''0'') \<and>
   \<not> isl (HugeInt_str (CHR ''1'' # replicate (10 * numDigits) CHR ''0'')) \<and>
   denoted (CHR ''1'' # replicate (10 * numDigits) CHR ''0'') = 10 ^ (10 * numDigits) \<and>
   sval (projr (HugeInt_str (CHR ''1'' # replicate (10 * numDigits) CHR ''0'')))
     \<noteq> denoted (CHR ''1'' # replicate (10 * numDigits) CHR ''0'')"
proof -
  let ?s = "CHR ''1'' # replicate (10 * numDigits) CHR ''0''"
  have wf: "well_formed ?s"
    by (simp add: well_formed_def isdigit_def list_all_iff)
  have one: "dec_value [CHR ''1''] = 1"
    by (simp add: dec_value_def digit_val_def)
  have "dec_value ?s = dec_value ([CHR ''1''] @ replicate (10 * numDigits) CHR ''0'')"
    by simp
  also have "\<dots> = 10 ^ (10 * numDigits)"
    by (simp only: dec_value_append_zeros one mult_1)
  finally have den: "denoted ?s = 10 ^ (10 * numDigits)"
    by (simp add: denoted_def)
  from HugeInt_str_well_formed [OF wf] obtain x where x: "HugeInt_str ?s = Inr x"
    "length x = numDigits"
    by blast
  have "sval x < int (modulus div 2)"
    by (rule sval_upper [OF x(2)])
  also have "\<dots> \<le> int modulus"
    by simp
  also have "\<dots> < 10 ^ (10 * numDigits)"
    by (rule modulus_lt_10_pow)
  finally have "sval x \<noteq> denoted ?s"
    using den by simp
  with wf x(1) den show ?thesis
    by simp
qed

section \<open>Long division on concrete operands\<close>

text \<open>
  Claim C1 fails on the code. With dividend \<open>2^127 + 2^95\<close> and divisor
  \<open>2^95 + 2^63 + 1\<close>, both non-negative objects of the class, Algorithm D leaves
  \<^verbatim>\<open>qhat\<close> at \<open>2^32\<close>, which truncates to the digit 0: the call returns quotient 0 and
  remainder \<open>2^95\<close>, and \<open>a = q * b + r\<close> does not hold.
\<close>

theorem unsigned_divide_qhat_defect:
  "length (HugeInt_default[2 := 0x80000000, 3 := 0x80000000]) = numDigits \<and>
   \<not> isNegative (HugeInt_default[2 := 0x80000000, 3 := 0x80000000]) \<and>
   \<not> isNegative (HugeInt_default[0 := 1, 1 := 0x80000000, 2 := 0x80000000]) \<and>
   \<not> isZero (HugeInt_default[0 := 1, 1 := 0x80000000, 2 := 0x80000000]) \<and>
   unsigned_divide (HugeInt_default[2 := 0x80000000, 3 := 0x80000000])
       (HugeInt_default[0 := 1, 1 := 0x80000000, 2 := 0x80000000]) (Some HugeInt_default)
     = Inr (HugeInt_default, Some (HugeInt_default[2 := 0x80000000])) \<and>
   uval (HugeInt_default[2 := 0x80000000, 3 := 0x80000000])
     \<noteq> uval HugeInt_default * uval (HugeInt_default[0 := 1, 1 := 0x80000000, 2 := 0x80000000])
         + uval (HugeInt_default[2 := 0x80000000])"
proof -
  have run: "unsigned_divide (HugeInt_default[2 := 0x80000000, 3 := 0x80000000])
       (HugeInt_default[0 := 1, 1 := 0x80000000, 2 := 0x80000000]) (Some HugeInt_default)
     = Inr (HugeInt_default, Some (HugeInt_default[2 := 0x80000000]))"
    by code_simp
  have sign: "\<not> isNegative (HugeInt_default[2 := 0x80000000, 3 := 0x80000000])"
    "\<not> isNegative (HugeInt_default[0 := 1, 1 := 0x80000000, 2 := 0x80000000])"
    by (simp_all add: isNegative_def numDigits_def HugeInt_default_def base_def)
  have nz: "\<not> isZero (HugeInt_default[0 := 1, 1 := 0x80000000, 2 := 0x80000000])"
    by (simp add: isZero_iff_default numDigits_def HugeInt_default_def list_eq_iff_nth_eq
        nth_list_update) (rule exI [of _ 0]; simp)
  have n: "2 < numDigits" "3 < numDigits"
    by (simp_all add: numDigits_def)
  have a: "uval (HugeInt_default[2 := 0x80000000, 3 := 0x80000000])
           = unat (0x80000000 :: uint32) * radix ^ 2 + unat (0x80000000 :: uint32) * radix ^ 3"
    using n by (simp add: uval_update_zero uval_update_default HugeInt_default_def)
  have r: "uval (HugeInt_default[2 := 0x80000000]) = unat (0x80000000 :: uint32) * radix ^ 2"
    using n by (simp add: uval_update_default)
  have "uval (HugeInt_default[2 := 0x80000000, 3 := 0x80000000])
     \<noteq> uval HugeInt_default * uval (HugeInt_default[0 := 1, 1 := 0x80000000, 2 := 0x80000000])
         + uval (HugeInt_default[2 := 0x80000000])"
    unfolding a r by simp
  with run sign nz show ?thesis
    by simp
qed

text \<open>
  Claim C9 fails on the code. A dividend whose digit at index \<open>numDigits - 1\<close> is nonzero has
  \<open>m = numDigits\<close>; with a divisor of two significant digits the normalisation step stores
  the extra leading digit at \<^verbatim>\<open>dividend.digits_[m]\<close>, index 300 of an array of 300.
\<close>

theorem unsigned_divide_index_overrun:
  "unsigned_divide (HugeInt_default[299 := 1]) (HugeInt_default[1 := 1]) None
     = Inl (IndexOutOfRange 300)"
  by code_simp

end
